theory Spec2Isabelle
  imports Main
begin

section \<open>The generic record\<close>

text \<open>
  \<^verbatim>\<open>struct NodeData\<close> (main.cpp, lines 14-20): the tag, the inline text, the repeated
  children by name and the attributes by name. The two \<^verbatim>\<open>std::map\<close>s are partial
  functions; a \<^verbatim>\<open>std::vector<NodeData>\<close> is a list. The type is recursive through the
  map, so it is a datatype with selectors instead of a record. The selector of the
  \<^verbatim>\<open>text\<close> field is called \<open>text_of\<close>, because \<open>text\<close> is a reserved word of the
  theory language.
\<close>

datatype NodeData = NodeData
  (name: string)
  (text_of: string)
  (subnodes: "string \<Rightarrow> NodeData list option")
  (attributes: "string \<Rightarrow> string option")

text \<open>A default-constructed \<^verbatim>\<open>NodeData\<close>: empty strings, empty maps.\<close>

definition empty_data :: NodeData where
  "empty_data = NodeData [] [] Map.empty Map.empty"

section \<open>Errors\<close>

text \<open>
  Every \<^verbatim>\<open>throw std::runtime_error(...)\<close> of the program is one constructor, in the
  order of the source: line 83 (\<^verbatim>\<open>"Expected xml attribute " + name\<close>), line 123
  (\<^verbatim>\<open>"A text node is required"\<close>), line 154 (\<^verbatim>\<open>"Expected an xml node of name " + name\<close>)
  and line 158 (\<^verbatim>\<open>"Expected " + name + " node instead of " + node.name()\<close>).
  The program has no other throw site.
\<close>

datatype error =
    MissingRequiredAttribute string
  | MissingRequiredText
  | MissingRequiredNode string
  | NodeNameMismatch string string

section \<open>The document tree\<close>

text \<open>
  Modelled from the spec: the tree collaborator (the XML library behind
  \<^verbatim>\<open>pugi::xml_node\<close>, \<^verbatim>\<open>pugi::xml_attribute\<close> and \<^verbatim>\<open>pugi::xml_text\<close>) is not part of the
  sources. Its handle interface is the one the spec lists in its section 6:
  attribute by name, text, child and children by name, append child, append
  attribute, set text. An element has a tag, its attributes in order and its content
  in order; a content item is a run of character data or a child element.

  Every node handle the program ever holds comes from \<^verbatim>\<open>document_element()\<close>,
  \<^verbatim>\<open>child(name)\<close>, \<^verbatim>\<open>children(name)\<close> or \<^verbatim>\<open>append_child(name)\<close>, so it is either an
  element or the null handle: a handle is an \<open>xml_element option\<close>, \<open>None\<close> being the
  null handle.
\<close>

datatype 'e xml_child = PCData string | Child 'e

datatype xml_element = Element
  (tag: string)
  (attrs: "(string \<times> string) list")
  (content: "xml_element xml_child list")

type_synonym xml_node = "xml_element option"

text \<open>A document owns a sequence of top-level items.\<close>

type_synonym xml_document = "xml_element xml_child list"

text \<open>\<^verbatim>\<open>node.name()\<close>: the tag, and the empty string on the null handle.\<close>

fun node_name :: "xml_node \<Rightarrow> string" where
  "node_name None = []"
| "node_name (Some e) = tag e"

text \<open>
  \<^verbatim>\<open>node.attribute(name)\<close>: the first attribute of that name. An attribute handle is
  modelled by the value it holds (\<^verbatim>\<open>as_string()\<close>), \<open>None\<close> being the null attribute.
\<close>

fun attribute :: "xml_node \<Rightarrow> string \<Rightarrow> string option" where
  "attribute None nm = None"
| "attribute (Some e) nm = map_of (attrs e) nm"

text \<open>
  \<^verbatim>\<open>node.text()\<close>: the first character-data item of the element. The text handle is
  modelled by the value it holds, \<open>None\<close> standing for a handle whose \<^verbatim>\<open>empty()\<close> is
  true (the element has no character data, or the node handle is null).
\<close>

fun first_pcdata :: "xml_element xml_child list \<Rightarrow> string option" where
  "first_pcdata [] = None"
| "first_pcdata (PCData s # cs) = Some s"
| "first_pcdata (Child e # cs) = first_pcdata cs"

fun xml_text :: "xml_node \<Rightarrow> string option" where
  "xml_text None = None"
| "xml_text (Some e) = first_pcdata (content e)"

text \<open>\<^verbatim>\<open>node.children(name)\<close>: the child elements of that tag, in document order.\<close>

fun named_children :: "xml_element xml_child list \<Rightarrow> string \<Rightarrow> xml_element list" where
  "named_children [] nm = []"
| "named_children (PCData s # cs) nm = named_children cs nm"
| "named_children (Child e # cs) nm =
     (if tag e = nm then e # named_children cs nm else named_children cs nm)"

fun children :: "xml_node \<Rightarrow> string \<Rightarrow> xml_element list" where
  "children None nm = []"
| "children (Some e) nm = named_children (content e) nm"

text \<open>\<^verbatim>\<open>node.child(name)\<close>: the first child element of that tag, or the null handle.\<close>

definition child :: "xml_node \<Rightarrow> string \<Rightarrow> xml_node" where
  "child node nm = (case children node nm of [] \<Rightarrow> None | e # es \<Rightarrow> Some e)"

text \<open>\<^verbatim>\<open>doc.document_element()\<close>: the first top-level element, or the null handle.\<close>

fun document_element :: "xml_document \<Rightarrow> xml_node" where
  "document_element [] = None"
| "document_element (PCData s # cs) = document_element cs"
| "document_element (Child e # cs) = Some e"

text \<open>
  The three mutators used by \<^verbatim>\<open>serialize\<close>. \<^verbatim>\<open>append_attribute(name) = value\<close> and
  \<^verbatim>\<open>append_child(name)\<close> add at the end; \<^verbatim>\<open>text().set(value)\<close> overwrites the first
  character-data item and creates one at the end when there is none.
\<close>

fun append_attribute :: "xml_element \<Rightarrow> string \<Rightarrow> string \<Rightarrow> xml_element" where
  "append_attribute (Element t as cs) nm v = Element t (as @ [(nm, v)]) cs"

fun set_first_pcdata :: "xml_element xml_child list \<Rightarrow> string \<Rightarrow> xml_element xml_child list" where
  "set_first_pcdata [] v = [PCData v]"
| "set_first_pcdata (PCData s # cs) v = PCData v # cs"
| "set_first_pcdata (Child e # cs) v = Child e # set_first_pcdata cs v"

fun set_text :: "xml_element \<Rightarrow> string \<Rightarrow> xml_element" where
  "set_text (Element t as cs) v = Element t as (set_first_pcdata cs v)"

fun append_child :: "xml_element \<Rightarrow> xml_element \<Rightarrow> xml_element" where
  "append_child (Element t as cs) c = Element t as (cs @ [Child c])"

section \<open>Descriptors\<close>

text \<open>
  The schema is built from the class templates \<^verbatim>\<open>Required\<close> (line 60),
  \<^verbatim>\<open>Attribute<name, Args...>\<close> (line 72), \<^verbatim>\<open>Text<Args...>\<close> (line 107),
  \<^verbatim>\<open>Node<name, Args...>\<close> (line 139) and \<^verbatim>\<open>NodeList<SubNodeType, Args...>\<close>
  (line 182). A template argument pack is a list of descriptors.

  \<^verbatim>\<open>NodeList\<close> calls \<^verbatim>\<open>subNodeType.validate(child)\<close> with a \<^verbatim>\<open>pugi::xml_node\<close> and reads
  \<^verbatim>\<open>NodeName<SubNodeType>::name\<close>, which only a \<^verbatim>\<open>Node\<close> offers together; the
  constructor \<open>NodeList nm args\<close> is \<^verbatim>\<open>NodeList(Node<nm, args...>)\<close>. The extra \<^verbatim>\<open>Args\<close>
  of \<^verbatim>\<open>NodeList\<close> are neither stored nor inspected and are left out.
\<close>

datatype desc =
    Required
  | Attribute string "desc list"
  | Text "desc list"
  | Node string "desc list"
  | NodeList string "desc list"

text \<open>\<^verbatim>\<open>is_required<Args...>\<close> (lines 37-44): some argument is \<^verbatim>\<open>Required\<close>.\<close>

fun is_required :: "desc list \<Rightarrow> bool" where
  "is_required [] = False"
| "is_required (arg # args) = (if arg = Required then True else is_required args)"

subsection \<open>Attribute\<close>

text \<open>\<^verbatim>\<open>Attribute::validate\<close> (lines 79-87), \<^verbatim>\<open>subnode\<close> (88-92), \<^verbatim>\<open>parse\<close> (93-96).\<close>

fun Attribute_validate :: "string \<Rightarrow> desc list \<Rightarrow> string option \<Rightarrow> error + bool" where
  "Attribute_validate nm args None =
     (if is_required args then Inl (MissingRequiredAttribute nm) else Inr False)"
| "Attribute_validate nm args (Some v) = Inr True"

definition Attribute_subnode :: "string \<Rightarrow> xml_node \<Rightarrow> string option" where
  "Attribute_subnode nm node = attribute node nm"

fun Attribute_parse :: "string \<Rightarrow> NodeData \<Rightarrow> string \<Rightarrow> NodeData" where
  "Attribute_parse nm (NodeData n t s a) v = NodeData n t s (a(nm \<mapsto> v))"

subsection \<open>Text\<close>

text \<open>
  \<^verbatim>\<open>Text::subnode\<close> (lines 114-118; it also writes a trace line to standard output,
  which is not part of the result), \<^verbatim>\<open>validate\<close> (119-127), \<^verbatim>\<open>parse\<close> (128-131).
\<close>

definition Text_subnode :: "xml_node \<Rightarrow> string option" where
  "Text_subnode node = xml_text node"

fun Text_validate :: "desc list \<Rightarrow> string option \<Rightarrow> error + bool" where
  "Text_validate args None =
     (if is_required args then Inl MissingRequiredText else Inr False)"
| "Text_validate args (Some v) = Inr True"

fun Text_parse :: "NodeData \<Rightarrow> string \<Rightarrow> NodeData" where
  "Text_parse (NodeData n t s a) v = NodeData n v s a"

subsection \<open>Node and NodeList\<close>

text \<open>\<^verbatim>\<open>Node::validate\<close> (lines 150-160) and \<^verbatim>\<open>Node::subnode\<close> (161-165).\<close>

fun Node_validate :: "string \<Rightarrow> desc list \<Rightarrow> xml_node \<Rightarrow> error + bool" where
  "Node_validate nm args None =
     (if is_required args then Inl (MissingRequiredNode nm) else Inr False)"
| "Node_validate nm args (Some e) =
     (if nm \<noteq> node_name (Some e) then Inl (NodeNameMismatch nm (node_name (Some e)))
      else Inr True)"

definition Node_subnode :: "string \<Rightarrow> xml_node \<Rightarrow> xml_node" where
  "Node_subnode nm node = child node nm"

text \<open>
  \<^verbatim>\<open>NodeList::subnode\<close> (lines 190-194) and \<^verbatim>\<open>NodeList::validate\<close> (195-199): the loop
  stops at the first child whose \<^verbatim>\<open>validate\<close> is false, and a throw leaves it.
\<close>

definition NodeList_subnode :: "string \<Rightarrow> xml_node \<Rightarrow> xml_element list" where
  "NodeList_subnode nm node = children node nm"

fun NodeList_validate :: "string \<Rightarrow> desc list \<Rightarrow> xml_element list \<Rightarrow> error + bool" where
  "NodeList_validate nm args [] = Inr True"
| "NodeList_validate nm args (c # cs) =
     (case Node_validate nm args (Some c) of
        Inl e \<Rightarrow> Inl e
      | Inr ok \<Rightarrow> if \<not> ok then Inr False else NodeList_validate nm args cs)"

text \<open>\<^verbatim>\<open>data.name = name\<close> (line 168).\<close>

fun set_name :: "NodeData \<Rightarrow> string \<Rightarrow> NodeData" where
  "set_name (NodeData n t s a) nm = NodeData nm t s a"

text \<open>
  \<^verbatim>\<open>auto& subnodes = data.subnodes[name]\<close> (line 202) creates the entry when the key
  is new; the loop then appends to that vector.
\<close>

fun subnodes_at :: "NodeData \<Rightarrow> string \<Rightarrow> NodeData list" where
  "subnodes_at d nm = (case subnodes d nm of None \<Rightarrow> [] | Some l \<Rightarrow> l)"

fun set_subnodes :: "NodeData \<Rightarrow> string \<Rightarrow> NodeData list \<Rightarrow> NodeData" where
  "set_subnodes (NodeData n t s a) nm l = NodeData n t (s(nm \<mapsto> l)) a"

text \<open>
  \<^verbatim>\<open>Node::parse\<close> (lines 166-170), \<^verbatim>\<open>parse_subnodes\<close> (230-238) and \<^verbatim>\<open>NodeList::parse\<close>
  (200-209). \<^verbatim>\<open>parse_subnodes\<close> takes the descriptors in declared order: locate, then
  validate, then parse when validate said true, which it says only of a handle that
  is present. A nested \<^verbatim>\<open>Node\<close> parses into the
  record it is handed, which is the record of the enclosing node; a \<^verbatim>\<open>NodeList\<close>
  parses every child into a fresh record appended to the vector. \<open>NodeList_loop\<close> is
  the \<^verbatim>\<open>for\<close> loop of lines 203-208, its second argument being the vector so far.
\<close>

fun Node_parse :: "string \<Rightarrow> desc list \<Rightarrow> NodeData \<Rightarrow> xml_node \<Rightarrow> error + NodeData"
  and parse_subnodes :: "NodeData \<Rightarrow> xml_node \<Rightarrow> desc list \<Rightarrow> error + NodeData"
  and NodeList_loop :: "string \<Rightarrow> desc list \<Rightarrow> NodeData list \<Rightarrow> xml_element list \<Rightarrow> error + NodeData list"
where
  "Node_parse nm args d node = parse_subnodes (set_name d nm) node args"
| "parse_subnodes d node [] = Inr d"
| "parse_subnodes d node (Required # descs) = parse_subnodes d node descs"
| "parse_subnodes d node (Attribute nm args # descs) =
     (case Attribute_validate nm args (Attribute_subnode nm node) of
        Inl e \<Rightarrow> Inl e
      | Inr ok \<Rightarrow>
          if ok then
            parse_subnodes (Attribute_parse nm d (the (Attribute_subnode nm node))) node descs
          else parse_subnodes d node descs)"
| "parse_subnodes d node (Text args # descs) =
     (case Text_validate args (Text_subnode node) of
        Inl e \<Rightarrow> Inl e
      | Inr ok \<Rightarrow>
          if ok then parse_subnodes (Text_parse d (the (Text_subnode node))) node descs
          else parse_subnodes d node descs)"
| "parse_subnodes d node (Node nm args # descs) =
     (case Node_validate nm args (Node_subnode nm node) of
        Inl e \<Rightarrow> Inl e
      | Inr ok \<Rightarrow>
          if ok then
            (case Node_parse nm args d (Node_subnode nm node) of
               Inl e \<Rightarrow> Inl e
             | Inr d' \<Rightarrow> parse_subnodes d' node descs)
          else parse_subnodes d node descs)"
| "parse_subnodes d node (NodeList nm args # descs) =
     (case NodeList_validate nm args (NodeList_subnode nm node) of
        Inl e \<Rightarrow> Inl e
      | Inr ok \<Rightarrow>
          if ok then
            (case NodeList_loop nm args (subnodes_at d nm) (NodeList_subnode nm node) of
               Inl e \<Rightarrow> Inl e
             | Inr l \<Rightarrow> parse_subnodes (set_subnodes d nm l) node descs)
          else parse_subnodes d node descs)"
| "NodeList_loop nm args acc [] = Inr acc"
| "NodeList_loop nm args acc (c # cs) =
     (case Node_parse nm args empty_data (Some c) of
        Inl e \<Rightarrow> Inl e
      | Inr sub \<Rightarrow> NodeList_loop nm args (acc @ [sub]) cs)"

section \<open>Serialization\<close>

text \<open>
  The strings of a \<^verbatim>\<open>NodeData\<close> are \<^verbatim>\<open>std::string\<close>s, and \<^verbatim>\<open>serialize\<close> hands each of them
  to the library as \<^verbatim>\<open>c_str()\<close> (lines 103, 135, 174 and 254): the library reads a
  \<^verbatim>\<open>const char*\<close> up to the first NUL character. Descriptor names (template arguments
  of type \<^verbatim>\<open>const char*\<close>) and the strings that handles return are C strings to begin
  with; a string of the model that stands for one of them holds no NUL.
\<close>

definition c_str :: "string \<Rightarrow> string" where
  "c_str s = takeWhile (\<lambda>c. c \<noteq> CHR 0x00) s"

text \<open>
  \<^verbatim>\<open>Attribute::serialize\<close> (lines 97-104): nothing is appended when the record has no
  entry of the declared name. \<^verbatim>\<open>Text::serialize\<close> (lines 132-136): the text is set with
  no test at all.
\<close>

definition Attribute_serialize :: "string \<Rightarrow> xml_element \<Rightarrow> NodeData \<Rightarrow> xml_element" where
  "Attribute_serialize nm parent d =
     (case attributes d nm of
        None \<Rightarrow> parent
      | Some v \<Rightarrow> append_attribute parent nm (c_str v))"

definition Text_serialize :: "xml_element \<Rightarrow> NodeData \<Rightarrow> xml_element" where
  "Text_serialize parent d = set_text parent (c_str (text_of d))"

text \<open>
  \<^verbatim>\<open>Node::serialize\<close> (lines 171-177), \<^verbatim>\<open>serialize_subnodes\<close> (222-229) and
  \<^verbatim>\<open>NodeList::serialize\<close> (210-217, \<open>NodeList_serialize_loop\<close> being its \<^verbatim>\<open>for\<close> loop).
  The functions return the parent as it is after the call.

  \<^verbatim>\<open>Node::serialize\<close> appends an empty child named \<^verbatim>\<open>data.name.c_str()\<close> to the parent, fills
  it through its handle and validates it. Nothing else touches the parent in the
  meantime and the new child is its last item, so the model fills and validates the
  child first and appends the finished child; a throw abandons the whole document
  either way.
\<close>

fun Node_serialize :: "string \<Rightarrow> desc list \<Rightarrow> xml_element \<Rightarrow> NodeData \<Rightarrow> error + xml_element"
  and serialize_subnodes :: "xml_element \<Rightarrow> NodeData \<Rightarrow> desc list \<Rightarrow> error + xml_element"
  and NodeList_serialize_loop :: "string \<Rightarrow> desc list \<Rightarrow> xml_element \<Rightarrow> NodeData list \<Rightarrow> error + xml_element"
where
  "Node_serialize nm args parent d =
     (case serialize_subnodes (Element (c_str (name d)) [] []) d args of
        Inl e \<Rightarrow> Inl e
      | Inr node \<Rightarrow>
          (case Node_validate nm args (Some node) of
             Inl e \<Rightarrow> Inl e
           | Inr ok \<Rightarrow> Inr (append_child parent node)))"
| "serialize_subnodes parent d [] = Inr parent"
| "serialize_subnodes parent d (Required # descs) = serialize_subnodes parent d descs"
| "serialize_subnodes parent d (Attribute nm args # descs) =
     serialize_subnodes (Attribute_serialize nm parent d) d descs"
| "serialize_subnodes parent d (Text args # descs) =
     serialize_subnodes (Text_serialize parent d) d descs"
| "serialize_subnodes parent d (Node nm args # descs) =
     (case Node_serialize nm args parent d of
        Inl e \<Rightarrow> Inl e
      | Inr parent' \<Rightarrow> serialize_subnodes parent' d descs)"
| "serialize_subnodes parent d (NodeList nm args # descs) =
     (case subnodes d nm of
        None \<Rightarrow> serialize_subnodes parent d descs
      | Some l \<Rightarrow>
          (case NodeList_serialize_loop nm args parent l of
             Inl e \<Rightarrow> Inl e
           | Inr parent' \<Rightarrow> serialize_subnodes parent' d descs))"
| "NodeList_serialize_loop nm args parent [] = Inr parent"
| "NodeList_serialize_loop nm args parent (c # cs) =
     (case Node_serialize nm args parent c of
        Inl e \<Rightarrow> Inl e
      | Inr parent' \<Rightarrow> NodeList_serialize_loop nm args parent' cs)"

section \<open>The two operations\<close>

text \<open>
  Modelled from the spec: \<^verbatim>\<open>doc.load_buffer\<close> (\<open>loadDocument\<close> in the spec) and
  \<^verbatim>\<open>doc.print\<close> (\<open>printDocument\<close>) belong to the XML library and are parameters. A
  loader gives the tree it leaves in the document together with its status
  (\<open>True\<close> when the text was well-formed); it returns a status and never throws. In
  this the model follows the library call of line 245, which reports a malformed text
  in the value it returns, and not the \<open>loadDocument\<close> of the spec, which fails with
  \<open>MalformedInput\<close>.
\<close>

type_synonym loader = "string \<Rightarrow> bool \<times> xml_document"

type_synonym printer = "xml_document \<Rightarrow> string"

text \<open>
  \<^verbatim>\<open>parse\<close> (lines 240-249). The value of \<^verbatim>\<open>doc.load_buffer\<close> is dropped (line 245), and
  so is the boolean of \<^verbatim>\<open>desc.validate\<close> (line 246): only its throw matters. The root
  descriptor must offer \<^verbatim>\<open>validate\<close> and \<^verbatim>\<open>parse\<close> on a \<^verbatim>\<open>pugi::xml_node\<close>, which \<^verbatim>\<open>Node\<close>
  and \<^verbatim>\<open>Required\<close> do; the call does not compile for the other three, and the function
  has no equation for them.
\<close>

fun parse :: "loader \<Rightarrow> string \<Rightarrow> desc \<Rightarrow> error + NodeData" where
  "parse load_buffer s (Node nm args) =
     (case Node_validate nm args (document_element (snd (load_buffer s))) of
        Inl e \<Rightarrow> Inl e
      | Inr ok \<Rightarrow> Node_parse nm args empty_data (document_element (snd (load_buffer s))))"
| "parse load_buffer s Required = Inr empty_data"

text \<open>
  \<^verbatim>\<open>serialize\<close> (lines 250-260) reads \<^verbatim>\<open>desc.args\<close>, which only a \<^verbatim>\<open>Node\<close> has. The root
  is named after the record (\<^verbatim>\<open>data.name.c_str()\<close>), filled, validated against the declared name, and only
  then printed.
\<close>

fun serialize_doc :: "NodeData \<Rightarrow> desc \<Rightarrow> error + xml_document" where
  "serialize_doc d (Node nm args) =
     (case serialize_subnodes (Element (c_str (name d)) [] []) d args of
        Inl e \<Rightarrow> Inl e
      | Inr root \<Rightarrow>
          (case Node_validate nm args (Some root) of
             Inl e \<Rightarrow> Inl e
           | Inr ok \<Rightarrow> Inr [Child root]))"

fun serialize :: "printer \<Rightarrow> NodeData \<Rightarrow> desc \<Rightarrow> error + string" where
  "serialize print d (Node nm args) =
     (case serialize_doc d (Node nm args) of
        Inl e \<Rightarrow> Inl e
      | Inr doc \<Rightarrow> Inr (print doc))"

section \<open>The schema and the documents of the demonstration driver\<close>

text \<open>The schema built in \<^verbatim>\<open>main\<close> (lines 294-302).\<close>

definition xml :: desc where
  "xml = Node ''root''
     [Required,
      Attribute ''key'' [Required],
      Attribute ''client_id'' [],
      NodeList ''data'' [Attribute ''id'' [Required], Text [Required]]]"

text \<open>
  The documents of the scenarios, as texts and as the trees those texts denote. The
  double quote is written \<open>dq\<close>. For example \<open>input_two_data\<close> is the text
  \<^verbatim>\<open><root key="mykey"><data id="1">D1</data><data id="2">D2</data></root>\<close>.
\<close>

definition dq :: char where
  "dq = CHR 0x22"

definition input_wrong :: string where
  "input_wrong = ''<wrong/>''"

definition doc_wrong :: xml_document where
  "doc_wrong = [Child (Element ''wrong'' [] [])]"

definition input_no_key :: string where
  "input_no_key = ''<root/>''"

definition doc_no_key :: xml_document where
  "doc_no_key = [Child (Element ''root'' [] [])]"

definition input_key_only :: string where
  "input_key_only = ''<root key='' @ dq # ''mykey'' @ dq # ''/>''"

definition doc_key_only :: xml_document where
  "doc_key_only = [Child (Element ''root'' [(''key'', ''mykey'')] [])]"

definition input_data_no_text :: string where
  "input_data_no_text =
     ''<root key='' @ dq # ''mykey'' @ dq # ''><data id='' @ dq # ''1'' @ dq # ''/></root>''"

definition doc_data_no_text :: xml_document where
  "doc_data_no_text =
     [Child (Element ''root'' [(''key'', ''mykey'')]
        [Child (Element ''data'' [(''id'', ''1'')] [])])]"

definition input_two_data :: string where
  "input_two_data =
     ''<root key='' @ dq # ''mykey'' @ dq # ''><data id='' @ dq # ''1'' @ dq # ''>D1</data>''
       @ ''<data id='' @ dq # ''2'' @ dq # ''>D2</data></root>''"

definition doc_two_data :: xml_document where
  "doc_two_data =
     [Child (Element ''root'' [(''key'', ''mykey'')]
        [Child (Element ''data'' [(''id'', ''1'')] [PCData ''D1'']),
         Child (Element ''data'' [(''id'', ''2'')] [PCData ''D2''])])]"

text \<open>
  Three further documents: a root with a \<^verbatim>\<open>header\<close> child, a root with one empty
  \<^verbatim>\<open>data\<close> child, and a root with four of them.
\<close>

definition input_header :: string where
  "input_header = ''<root><header/></root>''"

definition doc_header :: xml_document where
  "doc_header = [Child (Element ''root'' [] [Child (Element ''header'' [] [])])]"

definition input_one_data :: string where
  "input_one_data = ''<root><data/></root>''"

definition doc_one_data :: xml_document where
  "doc_one_data = [Child (Element ''root'' [] [Child (Element ''data'' [] [])])]"

definition input_four_data :: string where
  "input_four_data = ''<root><data/><data/><data/><data/></root>''"

definition doc_four_data :: xml_document where
  "doc_four_data =
     [Child (Element ''root'' []
        [Child (Element ''data'' [] []), Child (Element ''data'' [] []),
         Child (Element ''data'' [] []), Child (Element ''data'' [] [])])]"

text \<open>
  A loader and a printer to run the operations on: the loader knows the documents
  above and reports every other text as malformed, leaving an empty document (which
  is what the library leaves for the text \<^verbatim>\<open><\<close>); the printer knows the two-children
  document and the four-children document.
\<close>

definition example_loader :: loader where
  "example_loader s =
     (if s = input_wrong then (True, doc_wrong)
      else if s = input_no_key then (True, doc_no_key)
      else if s = input_key_only then (True, doc_key_only)
      else if s = input_data_no_text then (True, doc_data_no_text)
      else if s = input_two_data then (True, doc_two_data)
      else if s = input_header then (True, doc_header)
      else if s = input_one_data then (True, doc_one_data)
      else if s = input_four_data then (True, doc_four_data)
      else (False, []))"

definition example_printer :: printer where
  "example_printer doc =
     (if doc = doc_two_data then input_two_data
      else if doc = doc_four_data then input_four_data
      else [])"

section \<open>Names declared by a schema\<close>

text \<open>
  The names of the \<^verbatim>\<open>Attribute\<close> descriptors and the inner names of the \<^verbatim>\<open>NodeList\<close>
  descriptors that occur in a schema, at any depth of the descriptors that are
  traversed (the arguments of a \<^verbatim>\<open>Node\<close> and of the node inside a \<^verbatim>\<open>NodeList\<close>).
\<close>

fun attribute_names :: "desc \<Rightarrow> string set"
  and attribute_names_list :: "desc list \<Rightarrow> string set"
where
  "attribute_names Required = {}"
| "attribute_names (Attribute nm args) = {nm}"
| "attribute_names (Text args) = {}"
| "attribute_names (Node nm args) = attribute_names_list args"
| "attribute_names (NodeList nm args) = attribute_names_list args"
| "attribute_names_list [] = {}"
| "attribute_names_list (d # ds) = attribute_names d \<union> attribute_names_list ds"

fun list_names :: "desc \<Rightarrow> string set"
  and list_names_list :: "desc list \<Rightarrow> string set"
where
  "list_names Required = {}"
| "list_names (Attribute nm args) = {}"
| "list_names (Text args) = {}"
| "list_names (Node nm args) = list_names_list args"
| "list_names (NodeList nm args) = insert nm (list_names_list args)"
| "list_names_list [] = {}"
| "list_names_list (d # ds) = list_names d \<union> list_names_list ds"

section \<open>Error kinds\<close>

text \<open>The errors thrown by line 158, the tag check of \<^verbatim>\<open>Node::validate\<close>.\<close>

definition is_mismatch :: "error \<Rightarrow> bool" where
  "is_mismatch err = (case err of NodeNameMismatch a b \<Rightarrow> True | _ \<Rightarrow> False)"

section \<open>Removing an attribute from a document\<close>

text \<open>
  \<open>remove_attribute a e\<close> is the element \<open>e\<close> without its attributes named \<open>a\<close>.
  \<open>attribute_removed a e e'\<close>: the tree \<open>e'\<close> is \<open>e\<close> with the attribute \<open>a\<close> removed from
  one element, \<open>e\<close> itself or one below it.
\<close>

fun remove_attribute :: "string \<Rightarrow> xml_element \<Rightarrow> xml_element" where
  "remove_attribute a (Element t as cs) = Element t (filter (\<lambda>kv. fst kv \<noteq> a) as) cs"

inductive attribute_removed :: "string \<Rightarrow> xml_element \<Rightarrow> xml_element \<Rightarrow> bool" where
  here: "attribute_removed a e (remove_attribute a e)"
| below: "attribute_removed a c c' \<Longrightarrow>
     attribute_removed a (Element t as (pre @ Child c # post)) (Element t as (pre @ Child c' # post))"

abbreviation same_or_removed :: "string \<Rightarrow> xml_element \<Rightarrow> xml_element \<Rightarrow> bool" where
  "same_or_removed a e e' \<equiv> e' = e \<or> attribute_removed a e e'"

text \<open>
  \<open>required_attribute_removed a args e e'\<close>: the element \<open>e\<close> is parsed by a node with the
  descriptors \<open>args\<close>, and \<open>e'\<close> is \<open>e\<close> with the attribute \<open>a\<close> removed from an element to
  which the schema applies a required \<^verbatim>\<open>Attribute\<close> descriptor of that name: \<open>e\<close> itself
  (\<open>at_node\<close>), or an element reached through a child that a \<^verbatim>\<open>NodeList\<close> parses
  (\<open>in_list\<close>: any child of the inner name) or that a nested \<^verbatim>\<open>Node\<close> parses (\<open>in_node\<close>:
  the first child of its name).
\<close>

inductive required_attribute_removed ::
  "string \<Rightarrow> desc list \<Rightarrow> xml_element \<Rightarrow> xml_element \<Rightarrow> bool" where
  at_node: "Attribute a ra \<in> set args \<Longrightarrow> is_required ra \<Longrightarrow>
     required_attribute_removed a args e (remove_attribute a e)"
| in_list: "NodeList nm iargs \<in> set args \<Longrightarrow> tag c = nm \<Longrightarrow>
     required_attribute_removed a iargs c c' \<Longrightarrow>
     required_attribute_removed a args
       (Element t as (pre @ Child c # post)) (Element t as (pre @ Child c' # post))"
| in_node: "Node nm iargs \<in> set args \<Longrightarrow> tag c = nm \<Longrightarrow> named_children pre nm = [] \<Longrightarrow>
     required_attribute_removed a iargs c c' \<Longrightarrow>
     required_attribute_removed a args
       (Element t as (pre @ Child c # post)) (Element t as (pre @ Child c' # post))"

text \<open>A result that is a success or the missing-attribute error of line 83 for \<open>a\<close>.\<close>

definition ok_or_missing :: "string \<Rightarrow> error + 'a \<Rightarrow> bool" where
  "ok_or_missing a res = (case res of Inr x \<Rightarrow> True | Inl err \<Rightarrow> err = MissingRequiredAttribute a)"

section \<open>The records inside a record\<close>

text \<open>
  \<open>sub_record r p\<close> is the record reached from \<open>r\<close> along the path \<open>p\<close>; a step \<open>(k, i)\<close>
  goes to the element of index \<open>i\<close> of the sequence stored under the key \<open>k\<close>. The
  empty path reaches \<open>r\<close> itself, so the paths reach \<open>r\<close> and every record nested in
  it, at any depth.
\<close>

fun sub_record :: "NodeData \<Rightarrow> (string \<times> nat) list \<Rightarrow> NodeData option" where
  "sub_record r [] = Some r"
| "sub_record r ((k, i) # p) =
     (case subnodes r k of
        None \<Rightarrow> None
      | Some l \<Rightarrow> if i < length l then sub_record (l ! i) p else None)"

text \<open>\<open>all_records P r\<close>: the property \<open>P\<close> holds of \<open>r\<close> and of every record nested in it.\<close>

definition all_records :: "(NodeData \<Rightarrow> bool) \<Rightarrow> NodeData \<Rightarrow> bool" where
  "all_records P r \<longleftrightarrow> (\<forall>p r'. sub_record r p = Some r' \<longrightarrow> P r')"

text \<open>
  \<open>c_strings r\<close>: the name, the text and the attribute values of \<open>r\<close> are C strings,
  which \<^verbatim>\<open>c_str()\<close> returns whole. \<open>c_record r\<close>: this holds of \<open>r\<close> and of every record
  nested in it. A record filled by \<^verbatim>\<open>parse\<close> holds only what descriptor names and
  handles gave it, all of them C strings.
\<close>

definition c_strings :: "NodeData \<Rightarrow> bool" where
  "c_strings r \<longleftrightarrow>
     c_str (name r) = name r \<and> c_str (text_of r) = text_of r \<and>
     (\<forall>k v. attributes r k = Some v \<longrightarrow> c_str v = v)"

definition c_record :: "NodeData \<Rightarrow> bool" where
  "c_record r \<longleftrightarrow> (\<forall>p r'. sub_record r p = Some r' \<longrightarrow> c_strings r')"

text \<open>
  The same of what \<open>parse\<close> reads: \<open>c_element e\<close> says that the attribute values and the
  character data of \<open>e\<close> and of every element below it are C strings, \<open>c_names ds\<close> that
  the names of the \<^verbatim>\<open>Node\<close> and \<^verbatim>\<open>NodeList\<close> descriptors in \<open>ds\<close> are.
\<close>

inductive c_element :: "xml_element \<Rightarrow> bool" where
  "(\<And>k v. (k, v) \<in> set as \<Longrightarrow> c_str v = v) \<Longrightarrow>
   (\<And>s. PCData s \<in> set cs \<Longrightarrow> c_str s = s) \<Longrightarrow>
   (\<And>e. Child e \<in> set cs \<Longrightarrow> c_element e) \<Longrightarrow>
   c_element (Element t as cs)"

fun c_names :: "desc list \<Rightarrow> bool" where
  "c_names [] = True"
| "c_names (Node nm args # ds) = (c_str nm = nm \<and> c_names args \<and> c_names ds)"
| "c_names (NodeList nm args # ds) = (c_str nm = nm \<and> c_names args \<and> c_names ds)"
| "c_names (d # ds) = c_names ds"

abbreviation c_node :: "xml_node \<Rightarrow> bool" where
  "c_node node \<equiv> (\<forall>e. node = Some e \<longrightarrow> c_element e)"

text \<open>\<open>keys_within A L r\<close>: the attribute keys of \<open>r\<close> lie in \<open>A\<close> and its subnode keys in \<open>L\<close>.\<close>

definition keys_within :: "string set \<Rightarrow> string set \<Rightarrow> NodeData \<Rightarrow> bool" where
  "keys_within A L r \<longleftrightarrow> dom (attributes r) \<subseteq> A \<and> dom (subnodes r) \<subseteq> L"

section \<open>Schemas on which the record mirrors the document\<close>

text \<open>
  What the descriptors of one node write, level by level: the names of its own
  \<^verbatim>\<open>Attribute\<close> descriptors, the inner names of its own \<^verbatim>\<open>NodeList\<close> descriptors, and
  whether it has a \<^verbatim>\<open>Text\<close> descriptor.
\<close>

fun own_attributes :: "desc list \<Rightarrow> string set" where
  "own_attributes [] = {}"
| "own_attributes (Attribute nm args # ds) = insert nm (own_attributes ds)"
| "own_attributes (d # ds) = own_attributes ds"

fun own_lists :: "desc list \<Rightarrow> string set" where
  "own_lists [] = {}"
| "own_lists (NodeList nm args # ds) = insert nm (own_lists ds)"
| "own_lists (d # ds) = own_lists ds"

fun has_text :: "desc list \<Rightarrow> bool" where
  "has_text [] = False"
| "has_text (Text args # ds) = True"
| "has_text (d # ds) = has_text ds"

text \<open>
  \<open>simple_args\<close>: no \<^verbatim>\<open>Node\<close> descriptor stands directly among the arguments of a node
  (a nested \<^verbatim>\<open>Node\<close> parses into the record of the enclosing node and overwrites its
  name), and no node has two \<^verbatim>\<open>NodeList\<close> descriptors of the same inner name (both
  would append to the same vector); the same holds for the node inside every
  \<^verbatim>\<open>NodeList\<close>.
\<close>

fun simple_args :: "desc list \<Rightarrow> bool" where
  "simple_args [] = True"
| "simple_args (Required # ds) = simple_args ds"
| "simple_args (Attribute nm args # ds) = simple_args ds"
| "simple_args (Text args # ds) = simple_args ds"
| "simple_args (Node nm args # ds) = False"
| "simple_args (NodeList nm args # ds) =
     (simple_args args \<and> nm \<notin> own_lists ds \<and> simple_args ds)"

text \<open>
  \<open>built args d node\<close>: \<open>node\<close> is the element that \<^verbatim>\<open>Node::serialize\<close> and \<^verbatim>\<open>serialize\<close>
  build for the record \<open>d\<close> (lines 174-175 and 254-255). \<open>parsed nm args c sub\<close>: \<open>sub\<close>
  is the fresh record that the loop of \<^verbatim>\<open>NodeList::parse\<close> fills from the child \<open>c\<close>.
\<close>

abbreviation built :: "desc list \<Rightarrow> NodeData \<Rightarrow> xml_element \<Rightarrow> bool" where
  "built args d node \<equiv> serialize_subnodes (Element (c_str (name d)) [] []) d args = Inr node"

abbreviation parsed :: "string \<Rightarrow> desc list \<Rightarrow> xml_element \<Rightarrow> NodeData \<Rightarrow> bool" where
  "parsed nm args c sub \<equiv> Node_parse nm args empty_data (Some c) = Inr sub"

text \<open>
  \<open>round_trips ds\<close>: every record of C strings parsed by a node with the descriptors
  \<open>ds\<close> is serialized to an element that parses to the same record.
\<close>

definition round_trips :: "desc list \<Rightarrow> bool" where
  "round_trips ds \<longleftrightarrow>
     (\<forall>nm node r. parse_subnodes (set_name empty_data nm) node ds = Inr r \<and> c_record r \<longrightarrow>
        (\<exists>t. built ds r t \<and> parse_subnodes (set_name empty_data nm) (Some t) ds = Inr r))"

section \<open>Basic facts\<close>

text \<open>Field by field, what the four record updates do.\<close>

lemma Attribute_parse_sel [simp]:
  "name (Attribute_parse nm d v) = name d"
  "text_of (Attribute_parse nm d v) = text_of d"
  "subnodes (Attribute_parse nm d v) = subnodes d"
  "attributes (Attribute_parse nm d v) = (attributes d)(nm \<mapsto> v)"
  by (cases d; simp)+

lemma Text_parse_sel [simp]:
  "name (Text_parse d v) = name d"
  "text_of (Text_parse d v) = v"
  "subnodes (Text_parse d v) = subnodes d"
  "attributes (Text_parse d v) = attributes d"
  by (cases d; simp)+

lemma set_name_sel [simp]:
  "name (set_name d nm) = nm"
  "text_of (set_name d nm) = text_of d"
  "subnodes (set_name d nm) = subnodes d"
  "attributes (set_name d nm) = attributes d"
  by (cases d; simp)+

lemma set_subnodes_sel [simp]:
  "name (set_subnodes d nm l) = name d"
  "text_of (set_subnodes d nm l) = text_of d"
  "subnodes (set_subnodes d nm l) = (subnodes d)(nm \<mapsto> l)"
  "attributes (set_subnodes d nm l) = attributes d"
  by (cases d; simp)+

lemma subnodes_at_None [simp]: "subnodes d nm = None \<Longrightarrow> subnodes_at d nm = []"
  by simp

lemma subnodes_at_Some [simp]: "subnodes d nm = Some l \<Longrightarrow> subnodes_at d nm = l"
  by simp

lemma subnodes_at_updates [simp]:
  "subnodes_at (set_subnodes d k l) nm = (if nm = k then l else subnodes_at d nm)"
  "subnodes_at (Attribute_parse a d v) nm = subnodes_at d nm"
  "subnodes_at (Text_parse d v) nm = subnodes_at d nm"
  "subnodes_at (set_name d n) nm = subnodes_at d nm"
  by simp_all

declare subnodes_at.simps [simp del]

lemma c_str_simps [simp]:
  "c_str [] = []"
  "c_str (c # s) = (if c = CHR 0x00 then [] else c # c_str s)"
  by (simp_all add: c_str_def)

lemma c_str_idem [simp]: "c_str (c_str s) = c_str s"
  by (induction s) simp_all

lemma c_str_no_nul: "CHR 0x00 \<notin> set s \<Longrightarrow> c_str s = s"
  by (induction s) auto

lemma named_children_tag: "e \<in> set (named_children cs nm) \<Longrightarrow> tag e = nm"
  by (induction cs nm rule: named_children.induct) (auto split: if_splits)

lemma children_tag: "e \<in> set (children node nm) \<Longrightarrow> tag e = nm"
  by (cases node) (auto dest: named_children_tag)

lemma child_tag: "child node nm = Some e \<Longrightarrow> tag e = nm"
  using children_tag[of e node nm] by (auto simp: child_def split: list.splits)

lemma NodeList_validate_same_tag:
  "\<forall>c \<in> set cs. tag c = nm \<Longrightarrow> NodeList_validate nm args cs = Inr True"
  by (induction cs) auto

lemma NodeList_validate_children [simp]:
  "NodeList_validate nm args (children node nm) = Inr True"
  by (simp add: NodeList_validate_same_tag children_tag)

lemma parse_subnodes_Attribute:
  "parse_subnodes d node (Attribute nm args # descs) =
     (case attribute node nm of
        None \<Rightarrow> if is_required args then Inl (MissingRequiredAttribute nm)
                else parse_subnodes d node descs
      | Some v \<Rightarrow> parse_subnodes (Attribute_parse nm d v) node descs)"
  by (simp add: Attribute_subnode_def split: option.splits)

lemma parse_subnodes_Text:
  "parse_subnodes d node (Text args # descs) =
     (case xml_text node of
        None \<Rightarrow> if is_required args then Inl MissingRequiredText
                else parse_subnodes d node descs
      | Some v \<Rightarrow> parse_subnodes (Text_parse d v) node descs)"
  by (simp add: Text_subnode_def split: option.splits)

lemma parse_subnodes_Node:
  "parse_subnodes d node (Node nm args # descs) =
     (case child node nm of
        None \<Rightarrow> if is_required args then Inl (MissingRequiredNode nm)
                else parse_subnodes d node descs
      | Some e \<Rightarrow>
          (case parse_subnodes (set_name d nm) (Some e) args of
             Inl err \<Rightarrow> Inl err
           | Inr d' \<Rightarrow> parse_subnodes d' node descs))"
  by (auto simp: Node_subnode_def split: option.splits dest: child_tag)

lemma parse_subnodes_NodeList:
  "parse_subnodes d node (NodeList nm args # descs) =
     (case NodeList_loop nm args (subnodes_at d nm) (children node nm) of
        Inl err \<Rightarrow> Inl err
      | Inr l \<Rightarrow> parse_subnodes (set_subnodes d nm l) node descs)"
  by (simp add: NodeList_subnode_def)

lemmas parse_subnodes_steps =
  parse_subnodes_Attribute parse_subnodes_Text parse_subnodes_Node parse_subnodes_NodeList

declare parse_subnodes.simps(3-6) [simp del]
declare parse_subnodes_steps [simp]

lemma args_induct [case_names Nil Required Attribute Text Node NodeList]:
  assumes "P []"
    and "\<And>ds. P ds \<Longrightarrow> P (Required # ds)"
    and "\<And>nm args ds. P ds \<Longrightarrow> P (Attribute nm args # ds)"
    and "\<And>args ds. P ds \<Longrightarrow> P (Text args # ds)"
    and "\<And>nm args ds. P args \<Longrightarrow> P ds \<Longrightarrow> P (Node nm args # ds)"
    and "\<And>nm args ds. P args \<Longrightarrow> P ds \<Longrightarrow> P (NodeList nm args # ds)"
  shows "P ds"
proof (induction "size_list size ds" arbitrary: ds rule: less_induct)
  case less
  show ?case
  proof (cases ds)
    case Nil
    then show ?thesis using assms(1) by simp
  next
    case (Cons x xs)
    have tl: "P xs" using less[of xs] Cons by simp
    show ?thesis
    proof (cases x)
      case Required
      then show ?thesis using Cons tl assms(2) by simp
    next
      case (Attribute nm args)
      then show ?thesis using Cons tl assms(3) by simp
    next
      case (Text args)
      then show ?thesis using Cons tl assms(4) by simp
    next
      case (Node nm args)
      have "P args" using less[of args] Cons Node by simp
      then show ?thesis using Cons Node tl assms(5) by simp
    next
      case (NodeList nm args)
      have "P args" using less[of args] Cons NodeList by simp
      then show ?thesis using Cons NodeList tl assms(6) by simp
    qed
  qed
qed

lemma parse_subnodes_frame:
  "parse_subnodes d node descs = Inr r \<Longrightarrow>
     (k \<notin> attribute_names_list descs \<longrightarrow> attributes r k = attributes d k) \<and>
     (k \<notin> list_names_list descs \<longrightarrow> subnodes r k = subnodes d k)"
proof (induction descs arbitrary: d node r rule: args_induct)
  case Nil
  then show ?case by simp
next
  case (Required ds)
  then show ?case by simp
next
  case (Attribute nm args ds)
  then show ?case by (fastforce split: option.splits if_splits)
next
  case (Text args ds)
  then show ?case by (fastforce split: option.splits if_splits)
next
  case (Node nm args ds)
  then show ?case by (fastforce split: option.splits if_splits sum.splits)
next
  case (NodeList nm args ds)
  then show ?case by (fastforce split: sum.splits)
qed

text \<open>Unfolding the constants of the examples.\<close>

lemmas example_defs = example_loader_def example_printer_def dq_def
  input_wrong_def doc_wrong_def input_no_key_def doc_no_key_def input_key_only_def doc_key_only_def
  input_data_no_text_def doc_data_no_text_def input_two_data_def doc_two_data_def
  input_header_def doc_header_def input_one_data_def doc_one_data_def input_four_data_def doc_four_data_def

lemma first_pcdata_set [simp]: "first_pcdata (set_first_pcdata cs v) = Some v"
  by (induction cs v rule: set_first_pcdata.induct) simp_all

lemma NodeList_validate_True_iff:
  "NodeList_validate nm args cs = Inr True \<longleftrightarrow>
     (\<forall>c \<in> set cs. Node_validate nm args (Some c) = Inr True)"
  by (induction cs) (auto split: sum.splits if_splits)

lemma NodeList_validate_first_failure:
  "\<forall>c \<in> set pre. Node_validate nm args (Some c) = Inr True \<Longrightarrow>
   Node_validate nm args (Some c) = Inl err \<Longrightarrow>
   NodeList_validate nm args (pre @ c # post) = Inl err"
  by (induction pre) auto

lemma NodeList_loop_first_failure:
  "\<forall>c \<in> set pre. \<exists>sub. Node_parse nm args empty_data (Some c) = Inr sub \<Longrightarrow>
   Node_parse nm args empty_data (Some c) = Inl err \<Longrightarrow>
   NodeList_loop nm args acc (pre @ c # post) = Inl err"
  by (induction pre arbitrary: acc) (auto simp del: Node_parse.simps)

lemma tag_mutators [simp]:
  "tag (append_attribute p nm v) = tag p"
  "tag (set_text p v) = tag p"
  "tag (append_child p c) = tag p"
  by (cases p; simp)+

lemma tag_Attribute_serialize [simp]: "tag (Attribute_serialize nm p d) = tag p"
  by (simp add: Attribute_serialize_def split: option.splits)

lemma tag_Text_serialize [simp]: "tag (Text_serialize p d) = tag p"
  by (simp add: Text_serialize_def)

lemma Node_validate_Some:
  "Node_validate nm args (Some e) = (if nm \<noteq> tag e then Inl (NodeNameMismatch nm (tag e)) else Inr True)"
  by simp

lemma NodeList_serialize_loop_tag:
  assumes "\<And>p d p'. serialize_subnodes p d args = Inr p' \<Longrightarrow> tag p' = tag p"
  shows "NodeList_serialize_loop nm args p cs = Inr p' \<Longrightarrow> tag p' = tag p"
  by (induction cs arbitrary: p) (auto split: sum.splits if_splits)

lemma serialize_subnodes_tag:
  "serialize_subnodes p d descs = Inr p' \<Longrightarrow> tag p' = tag p"
proof (induction descs arbitrary: p d p' rule: args_induct)
  case Nil
  then show ?case by simp
next
  case (Required ds)
  then show ?case by simp
next
  case (Attribute nm args ds)
  then show ?case by fastforce
next
  case (Text args ds)
  then show ?case by fastforce
next
  case (Node nm args ds)
  then show ?case by (fastforce split: sum.splits if_splits)
next
  case (NodeList nm args ds)
  from NodeList.prems show ?case
  proof (cases "subnodes d nm")
    case None
    with NodeList.prems NodeList.IH(2) show ?thesis by simp
  next
    case (Some l)
    with NodeList.prems obtain p1 where
      a: "NodeList_serialize_loop nm args p l = Inr p1" and
      b: "serialize_subnodes p1 d ds = Inr p'"
      by (auto split: sum.splits)
    have "tag p1 = tag p"
      by (rule NodeList_serialize_loop_tag[where args = args, OF _ a])
        (rule NodeList.IH(1))
    with NodeList.IH(2)[OF b] show ?thesis by simp
  qed
qed

lemma NodeList_serialize_loop_error:
  assumes "\<And>p d err. serialize_subnodes p d args = Inl err \<Longrightarrow> is_mismatch err"
  shows "NodeList_serialize_loop nm args p cs = Inl err \<Longrightarrow> is_mismatch err"
  using assms
  by (induction cs arbitrary: p) (auto split: sum.splits if_splits simp: is_mismatch_def)

lemma serialize_subnodes_error:
  "serialize_subnodes p d descs = Inl err \<Longrightarrow> is_mismatch err"
proof (induction descs arbitrary: p d err rule: args_induct)
  case Nil
  then show ?case by simp
next
  case (Required ds)
  then show ?case by simp
next
  case (Attribute nm args ds)
  then show ?case by fastforce
next
  case (Text args ds)
  then show ?case by fastforce
next
  case (Node nm args ds)
  then show ?case by (fastforce split: sum.splits if_splits simp: is_mismatch_def)
next
  case (NodeList nm args ds)
  show ?case
  proof (cases "subnodes d nm")
    case None
    with NodeList.prems NodeList.IH(2) show ?thesis by simp
  next
    case (Some l)
    show ?thesis
    proof (cases "NodeList_serialize_loop nm args p l")
      case (Inl e)
      have "is_mismatch e"
        by (rule NodeList_serialize_loop_error[where args = args, OF _ Inl])
          (rule NodeList.IH(1))
      moreover from Inl Some NodeList.prems have "e = err" by simp
      ultimately show ?thesis by simp
    next
      case (Inr p1)
      with Some NodeList.prems NodeList.IH(2) show ?thesis by simp
    qed
  qed
qed

subsection \<open>Parsing after an attribute was removed\<close>

lemma map_of_filter_key:
  "map_of (filter (\<lambda>kv. fst kv \<noteq> a) as) k = (if k = a then None else map_of as k)"
  by (induction as) auto

lemma remove_attribute_sel [simp]:
  "tag (remove_attribute a e) = tag e"
  "content (remove_attribute a e) = content e"
  "attrs (remove_attribute a e) = filter (\<lambda>kv. fst kv \<noteq> a) (attrs e)"
  by (cases e; simp)+

lemma named_children_append [simp]:
  "named_children (xs @ ys) nm = named_children xs nm @ named_children ys nm"
  by (induction xs nm rule: named_children.induct) auto

lemma first_pcdata_append_Child:
  "first_pcdata (pre @ Child c # post) = first_pcdata (pre @ Child c' # post)"
  by (induction pre rule: first_pcdata.induct) auto

lemma removed_tag: "attribute_removed a e e' \<Longrightarrow> tag e' = tag e"
  by (induction rule: attribute_removed.induct) auto

lemma removed_attribute:
  "attribute_removed a e e' \<Longrightarrow> k \<noteq> a \<Longrightarrow> attribute (Some e') k = attribute (Some e) k"
  by (induction rule: attribute_removed.induct) (auto simp: map_of_filter_key)

lemma removed_text: "attribute_removed a e e' \<Longrightarrow> xml_text (Some e') = xml_text (Some e)"
  by (induction rule: attribute_removed.induct) (auto simp: first_pcdata_append_Child)

lemma list_all2_same: "list_all2 (same_or_removed a) xs xs"
  by (simp add: list_all2_same)

lemma removed_children:
  "attribute_removed a e e' \<Longrightarrow>
     list_all2 (same_or_removed a) (children (Some e) nm) (children (Some e') nm)"
proof (induction rule: attribute_removed.induct)
  case (here a e)
  then show ?case by (simp add: list_all2_same)
next
  case (below a c c' t as pre post)
  then show ?case
    by (auto simp: removed_tag list_all2_appendI list_all2_same)
qed

lemma same_or_removed_children:
  "same_or_removed a e e' \<Longrightarrow>
     list_all2 (same_or_removed a) (children (Some e) nm) (children (Some e') nm)"
  using removed_children list_all2_same by blast

lemma NodeList_loop_Inr_iff:
  "NodeList_loop nm args acc cs = Inr l \<longleftrightarrow>
     (\<exists>subs. list_all2 (\<lambda>c s. Node_parse nm args empty_data (Some c) = Inr s) cs subs \<and>
             l = acc @ subs)"
proof (induction cs arbitrary: acc l)
  case Nil
  then show ?case by auto
next
  case (Cons c cs)
  show ?case
  proof (cases "Node_parse nm args empty_data (Some c)")
    case (Inl err)
    then show ?thesis by (auto simp: list_all2_Cons1)
  next
    case (Inr sub)
    then show ?thesis using Cons[of "acc @ [sub]" l]
      by (auto simp: list_all2_Cons1)
  qed
qed

lemma parse_subnodes_append:
  "parse_subnodes d node (xs @ ys) =
     (case parse_subnodes d node xs of
        Inl err \<Rightarrow> Inl err
      | Inr d1 \<Rightarrow> parse_subnodes d1 node ys)"
proof (induction xs arbitrary: d)
  case Nil
  then show ?case by simp
next
  case (Cons x xs)
  then show ?case
    by (cases x) (auto split: option.splits sum.splits)
qed

lemma ok_or_missing_simps [simp]:
  "ok_or_missing a (Inr x)"
  "ok_or_missing a (Inl err) = (err = MissingRequiredAttribute a)"
  by (simp_all add: ok_or_missing_def)

lemma child_same_or_removed:
  assumes "same_or_removed a e e'"
  shows "(child (Some e) nm = None \<longrightarrow> child (Some e') nm = None) \<and>
         (\<forall>c. child (Some e) nm = Some c \<longrightarrow>
            (\<exists>c'. child (Some e') nm = Some c' \<and> same_or_removed a c c'))"
  using same_or_removed_children[OF assms, of nm]
  by (auto simp: child_def list_all2_Cons1 split: list.splits simp del: children.simps)

lemma loop_after_removal:
  assumes ih: "\<And>d d' e e' r. same_or_removed a e e' \<Longrightarrow>
      parse_subnodes d (Some e) args = Inr r \<Longrightarrow>
      ok_or_missing a (parse_subnodes d' (Some e') args)"
  shows "list_all2 (same_or_removed a) cs cs' \<Longrightarrow>
     NodeList_loop nm args acc cs = Inr l \<Longrightarrow>
     ok_or_missing a (NodeList_loop nm args acc' cs')"
proof (induction arbitrary: acc acc' l rule: list_all2_induct)
  case Nil
  then show ?case by simp
next
  case (Cons c cs c' cs')
  from Cons.prems obtain sub where
    s: "parse_subnodes (set_name empty_data nm) (Some c) args = Inr sub" and
    r: "NodeList_loop nm args (acc @ [sub]) cs = Inr l"
    by (auto split: sum.splits)
  have "ok_or_missing a (parse_subnodes (set_name empty_data nm) (Some c') args)"
    using ih[OF Cons.hyps(1) s] .
  then show ?case using Cons.IH[OF r]
    by (auto split: sum.splits)
qed

lemma parse_after_removal:
  "same_or_removed a e e' \<Longrightarrow> parse_subnodes d (Some e) descs = Inr r \<Longrightarrow>
     ok_or_missing a (parse_subnodes d' (Some e') descs)"
proof (induction descs arbitrary: d d' e e' r rule: args_induct)
  case Nil
  then show ?case by simp
next
  case (Required ds)
  then show ?case by simp
next
  case (Attribute nm args ds)
  have at: "nm \<noteq> a \<Longrightarrow> attribute (Some e') nm = attribute (Some e) nm"
    using Attribute.prems(1) removed_attribute by blast
  from Attribute.prems(2) obtain d1 where
    c: "parse_subnodes d1 (Some e) ds = Inr r"
    by (auto split: option.splits if_splits)
  have n: "ok_or_missing a (parse_subnodes d2 (Some e') ds)" for d2
    using Attribute.IH[OF Attribute.prems(1) c] .
  show ?case
  proof (cases "nm = a")
    case True
    then show ?thesis using n
      by (auto split: option.splits simp del: attribute.simps)
  next
    case False
    then show ?thesis using n at Attribute.prems(2)
      by (auto split: option.splits if_splits simp del: attribute.simps)
  qed
next
  case (Text args ds)
  have tx: "xml_text (Some e') = xml_text (Some e)"
    using Text.prems(1) removed_text by blast
  from Text.prems(2) obtain d1 where
    c: "parse_subnodes d1 (Some e) ds = Inr r"
    by (auto split: option.splits if_splits)
  have n: "ok_or_missing a (parse_subnodes d2 (Some e') ds)" for d2
    using Text.IH[OF Text.prems(1) c] .
  show ?case using n tx Text.prems(2)
    by (auto split: option.splits if_splits simp del: xml_text.simps)
next
  case (Node nm args ds)
  note ch = child_same_or_removed[OF Node.prems(1), of nm]
  from Node.prems(2) obtain d1 where
    c: "parse_subnodes d1 (Some e) ds = Inr r"
    by (auto split: option.splits if_splits sum.splits)
  have n: "ok_or_missing a (parse_subnodes d2 (Some e') ds)" for d2
    using Node.IH(2)[OF Node.prems(1) c] .
  show ?case
  proof (cases "child (Some e) nm")
    case None
    then show ?thesis using ch n Node.prems(2) by (auto split: if_splits)
  next
    case (Some c0)
    with ch obtain c0' where c0': "child (Some e') nm = Some c0'" "same_or_removed a c0 c0'"
      by blast
    from Some Node.prems(2) obtain d0 where
      i: "parse_subnodes (set_name d nm) (Some c0) args = Inr d0"
      by (auto split: sum.splits)
    have "ok_or_missing a (parse_subnodes (set_name d' nm) (Some c0') args)"
      using Node.IH(1)[OF c0'(2) i] .
    then show ?thesis using c0'(1) n by (auto split: sum.splits)
  qed
next
  case (NodeList nm args ds)
  note ch = same_or_removed_children[OF NodeList.prems(1), of nm]
  from NodeList.prems(2) obtain l d1 where
    lp: "NodeList_loop nm args (subnodes_at d nm) (children (Some e) nm) = Inr l" and
    c: "parse_subnodes d1 (Some e) ds = Inr r"
    by (auto split: sum.splits simp del: children.simps)
  have n: "ok_or_missing a (parse_subnodes d2 (Some e') ds)" for d2
    using NodeList.IH(2)[OF NodeList.prems(1) c] .
  have "ok_or_missing a (NodeList_loop nm args (subnodes_at d' nm) (children (Some e') nm))"
    by (rule loop_after_removal[where args = args, OF _ ch lp]) (rule NodeList.IH(1))
  then show ?case using n
    by (auto split: sum.splits simp del: children.simps)
qed

lemma required_removed_is_removed:
  "required_attribute_removed a args e e' \<Longrightarrow> attribute_removed a e e'"
  by (induction rule: required_attribute_removed.induct)
    (auto intro: attribute_removed.intros)

lemma parse_prefix:
  assumes "parse_subnodes d node (pre @ x # post) = Inr r"
  obtains d1 where "parse_subnodes d node pre = Inr d1"
    and "parse_subnodes d1 node (x # post) = Inr r"
  using assms by (auto simp: parse_subnodes_append split: sum.splits)

lemma parse_after_prefix:
  assumes rem: "attribute_removed a e e'"
    and ok: "parse_subnodes d (Some e) (pre @ x # post) = Inr r"
    and step: "\<And>d1 d1' r1. parse_subnodes d1 (Some e) (x # post) = Inr r1 \<Longrightarrow>
       parse_subnodes d1' (Some e') (x # post) = Inl (MissingRequiredAttribute a)"
  shows "parse_subnodes d' (Some e') (pre @ x # post) = Inl (MissingRequiredAttribute a)"
proof -
  from ok obtain d1 where
    p: "parse_subnodes d (Some e) pre = Inr d1" and
    q: "parse_subnodes d1 (Some e) (x # post) = Inr r"
    by (rule parse_prefix)
  have "ok_or_missing a (parse_subnodes d' (Some e') pre)"
    using parse_after_removal[OF _ p] rem by blast
  then show ?thesis using step[OF q]
    by (auto simp: parse_subnodes_append split: sum.splits)
qed

lemma list_all2_lhs_ex: "list_all2 P xs ys \<Longrightarrow> x \<in> set xs \<Longrightarrow> \<exists>y. P x y"
  by (induction rule: list_all2_induct) auto

lemma loop_hits_removed:
  assumes lp: "NodeList_loop nm args acc (cs1 @ c # cs2) = Inr l"
    and ih: "\<And>d d' r. parse_subnodes d (Some c) args = Inr r \<Longrightarrow>
       parse_subnodes d' (Some c') args = Inl (MissingRequiredAttribute a)"
  shows "NodeList_loop nm args acc' (cs1 @ c' # cs2) = Inl (MissingRequiredAttribute a)"
proof -
  from lp obtain subs where
    la: "list_all2 (\<lambda>c s. Node_parse nm args empty_data (Some c) = Inr s) (cs1 @ c # cs2) subs"
    unfolding NodeList_loop_Inr_iff by blast
  have ex: "\<exists>sub. Node_parse nm args empty_data (Some x) = Inr sub"
    if "x \<in> set (cs1 @ c # cs2)" for x
    using list_all2_lhs_ex[OF la that] .
  have pre: "\<forall>x \<in> set cs1. \<exists>sub. Node_parse nm args empty_data (Some x) = Inr sub"
    using ex by simp
  have at: "\<exists>sub. Node_parse nm args empty_data (Some c) = Inr sub"
    using ex by simp
  from at ih have "Node_parse nm args empty_data (Some c') = Inl (MissingRequiredAttribute a)"
    by auto
  with pre show ?thesis by (rule NodeList_loop_first_failure)
qed

lemma parse_required_attribute_removed:
  "required_attribute_removed a args e e' \<Longrightarrow> parse_subnodes d (Some e) args = Inr r \<Longrightarrow>
     parse_subnodes d' (Some e') args = Inl (MissingRequiredAttribute a)"
proof (induction arbitrary: d d' r rule: required_attribute_removed.induct)
  case (at_node a ra args e)
  from at_node.hyps(1) obtain pre post where sp: "args = pre @ Attribute a ra # post"
    by (auto dest: split_list)
  show ?case unfolding sp
  proof (rule parse_after_prefix)
    show "attribute_removed a e (remove_attribute a e)" by (rule attribute_removed.here)
    show "parse_subnodes d (Some e) (pre @ Attribute a ra # post) = Inr r"
      using at_node.prems sp by simp
    show "parse_subnodes d1' (Some (remove_attribute a e)) (Attribute a ra # post)
        = Inl (MissingRequiredAttribute a)" for d1'
      using at_node.hyps(2) by (simp add: map_of_filter_key)
  qed
next
  case (in_list nm iargs args c a c' t as pre post)
  let ?e = "Element t as (pre @ Child c # post)"
  let ?e' = "Element t as (pre @ Child c' # post)"
  have rem: "attribute_removed a ?e ?e'"
    using in_list.hyps(3) by (auto intro: attribute_removed.below required_removed_is_removed)
  have tc: "tag c' = nm"
    using in_list.hyps(2,3) by (auto dest: required_removed_is_removed removed_tag)
  from in_list.hyps(1) obtain dpre dpost where sp: "args = dpre @ NodeList nm iargs # dpost"
    by (auto dest: split_list)
  show ?case unfolding sp
  proof (rule parse_after_prefix[OF rem])
    show "parse_subnodes d (Some ?e) (dpre @ NodeList nm iargs # dpost) = Inr r"
      using in_list.prems sp by simp
  next
    fix d1 d1' r1
    assume "parse_subnodes d1 (Some ?e) (NodeList nm iargs # dpost) = Inr r1"
    then obtain l where
      "NodeList_loop nm iargs (subnodes_at d1 nm)
         (named_children pre nm @ c # named_children post nm) = Inr l"
      using in_list.hyps(2) by (auto split: sum.splits)
    then have "NodeList_loop nm iargs (subnodes_at d1' nm)
         (named_children pre nm @ c' # named_children post nm) = Inl (MissingRequiredAttribute a)"
      by (rule loop_hits_removed) (rule in_list.IH)
    then show "parse_subnodes d1' (Some ?e') (NodeList nm iargs # dpost)
        = Inl (MissingRequiredAttribute a)"
      using tc by simp
  qed
next
  case (in_node nm iargs args c pre a c' t as post)
  let ?e = "Element t as (pre @ Child c # post)"
  let ?e' = "Element t as (pre @ Child c' # post)"
  have rem: "attribute_removed a ?e ?e'"
    using in_node.hyps(4) by (auto intro: attribute_removed.below required_removed_is_removed)
  have tc: "tag c' = nm"
    using in_node.hyps(2,4) by (auto dest: required_removed_is_removed removed_tag)
  from in_node.hyps(1) obtain dpre dpost where sp: "args = dpre @ Node nm iargs # dpost"
    by (auto dest: split_list)
  have ch: "child (Some ?e) nm = Some c" "child (Some ?e') nm = Some c'"
    using in_node.hyps(2,3) tc by (simp_all add: child_def)
  show ?case unfolding sp
  proof (rule parse_after_prefix[OF rem])
    show "parse_subnodes d (Some ?e) (dpre @ Node nm iargs # dpost) = Inr r"
      using in_node.prems sp by simp
  next
    fix d1 d1' r1
    assume "parse_subnodes d1 (Some ?e) (Node nm iargs # dpost) = Inr r1"
    then obtain d0 where "parse_subnodes (set_name d1 nm) (Some c) iargs = Inr d0"
      using ch(1) by (auto split: sum.splits)
    then have "parse_subnodes (set_name d1' nm) (Some c') iargs = Inl (MissingRequiredAttribute a)"
      by (rule in_node.IH)
    then show "parse_subnodes d1' (Some ?e') (Node nm iargs # dpost)
        = Inl (MissingRequiredAttribute a)"
      using ch(2) by simp
  qed
qed

subsection \<open>Parsing under a simple schema\<close>

lemma simple_args_inner:
  "simple_args ds \<Longrightarrow> NodeList nm iargs \<in> set ds \<Longrightarrow> simple_args iargs"
  by (induction ds rule: simple_args.induct) auto

lemma own_lists_member: "NodeList nm iargs \<in> set ds \<Longrightarrow> nm \<in> own_lists ds"
  by (induction ds rule: own_lists.induct) auto

lemma parse_simple_name:
  "simple_args ds \<Longrightarrow> parse_subnodes d node ds = Inr r \<Longrightarrow> name r = name d"
  by (induction ds arbitrary: d rule: simple_args.induct)
    (auto split: option.splits if_splits sum.splits)

lemma parse_simple_attributes:
  "simple_args ds \<Longrightarrow> parse_subnodes d node ds = Inr r \<Longrightarrow>
     attributes r k =
       (if k \<in> own_attributes ds \<and> attribute node k \<noteq> None then attribute node k
        else attributes d k)"
  by (induction ds arbitrary: d rule: simple_args.induct)
    (auto split: option.splits if_splits sum.splits)

lemma parse_simple_text:
  "simple_args ds \<Longrightarrow> parse_subnodes d node ds = Inr r \<Longrightarrow>
     text_of r =
       (if has_text ds \<and> xml_text node \<noteq> None then the (xml_text node) else text_of d)"
  by (induction ds arbitrary: d rule: simple_args.induct)
    (auto split: option.splits if_splits sum.splits)

lemma parse_simple_other_lists:
  "simple_args ds \<Longrightarrow> parse_subnodes d node ds = Inr r \<Longrightarrow> k \<notin> own_lists ds \<Longrightarrow>
     subnodes r k = subnodes d k"
  by (induction ds arbitrary: d rule: simple_args.induct)
    (auto split: option.splits if_splits sum.splits)

lemma parse_simple_list:
  "simple_args ds \<Longrightarrow> parse_subnodes d node ds = Inr r \<Longrightarrow> NodeList nm iargs \<in> set ds \<Longrightarrow>
     \<exists>subs. subnodes r nm = Some (subnodes_at d nm @ subs) \<and>
            list_all2 (parsed nm iargs) (children node nm) subs"
proof (induction ds arbitrary: d rule: simple_args.induct)
  case (6 nm' args ds)
  from "6.prems"(2) obtain l where
    lp: "NodeList_loop nm' args (subnodes_at d nm') (children node nm') = Inr l" and
    rest: "parse_subnodes (set_subnodes d nm' l) node ds = Inr r"
    by (auto split: sum.splits)
  show ?case
  proof (cases "NodeList nm iargs = NodeList nm' args")
    case True
    from lp obtain subs where
      s: "list_all2 (parsed nm' args) (children node nm') subs" "l = subnodes_at d nm' @ subs"
      unfolding NodeList_loop_Inr_iff by blast
    have "subnodes r nm' = Some l"
      using parse_simple_other_lists[OF _ rest, of nm'] "6.prems"(1) by simp
    with s True show ?thesis by auto
  next
    case False
    with "6.prems"(3) have m: "NodeList nm iargs \<in> set ds" by auto
    then have "nm \<noteq> nm'" using "6.prems"(1) own_lists_member by auto
    then show ?thesis using "6.IH"(2)[OF _ rest m] "6.prems"(1) by simp
  qed
next
  case (3 a args ds)
  from "3.prems"(2) obtain d1 where
    "parse_subnodes d1 node ds = Inr r" "subnodes_at d1 nm = subnodes_at d nm"
    by (auto split: option.splits if_splits)
  then show ?case using "3.IH"[of d1] "3.prems" by auto
next
  case (4 args ds)
  from "4.prems"(2) obtain d1 where
    "parse_subnodes d1 node ds = Inr r" "subnodes_at d1 nm = subnodes_at d nm"
    by (auto split: option.splits if_splits)
  then show ?case using "4.IH"[of d1] "4.prems" by auto
qed auto

lemma Attribute_parse_same: "attributes d nm = Some v \<Longrightarrow> Attribute_parse nm d v = d"
  by (cases d) (auto simp: fun_upd_idem)

lemma Text_parse_same: "Text_parse d (text_of d) = d"
  by (cases d) auto

lemma reparse:
  assumes "simple_args ds" and "parse_subnodes d node ds = Inr r"
    and "\<forall>a \<in> own_attributes ds. attribute (Some t) a = attributes r a"
    and "has_text ds \<longrightarrow> xml_text (Some t) = Some (text_of r)"
    and "\<forall>nm iargs. NodeList nm iargs \<in> set ds \<longrightarrow>
           (\<exists>subs. subnodes r nm = Some subs \<and>
              NodeList_loop nm iargs [] (children (Some t) nm) = Inr subs)"
    and "\<forall>nm \<in> own_lists ds. subnodes d nm = None"
  shows "parse_subnodes d (Some t) ds = Inr r"
  using assms
proof (induction ds arbitrary: d rule: simple_args.induct)
  case (1 d)
  then show ?case by simp
next
  case (2 ds d)
  then show ?case by simp
next
  case (3 a args ds d)
  have ta: "attribute (Some t) a = attributes r a" using "3.prems"(3) by simp
  show ?case
  proof (cases "attribute node a")
    case None
    with "3.prems"(2) have nr: "\<not> is_required args" and rest: "parse_subnodes d node ds = Inr r"
      by (auto split: if_splits)
    have ra: "attributes r a = attributes d a"
      using parse_simple_attributes[OF _ rest, of a] "3.prems"(1) None by simp
    have "parse_subnodes d (Some t) ds = Inr r"
      using "3.IH"[OF _ rest] "3.prems" by simp
    then show ?thesis using ta ra nr
      by (auto split: option.splits simp: Attribute_parse_same simp del: attribute.simps)
  next
    case (Some v)
    with "3.prems"(2) have rest: "parse_subnodes (Attribute_parse a d v) node ds = Inr r"
      by simp
    have ra: "attributes r a = Some v"
      using parse_simple_attributes[OF _ rest, of a] "3.prems"(1) Some by simp
    have "parse_subnodes (Attribute_parse a d v) (Some t) ds = Inr r"
      using "3.IH"[OF _ rest] "3.prems" by simp
    then show ?thesis using ta ra by (simp del: attribute.simps)
  qed
next
  case (4 args ds d)
  have tt: "xml_text (Some t) = Some (text_of r)" using "4.prems"(4) by simp
  show ?case
  proof (cases "xml_text node")
    case None
    with "4.prems"(2) have rest: "parse_subnodes d node ds = Inr r"
      by (auto split: if_splits)
    have rt: "text_of r = text_of d"
      using parse_simple_text[OF _ rest] "4.prems"(1) None by simp
    have "parse_subnodes d (Some t) ds = Inr r"
      using "4.IH"[OF _ rest] "4.prems" by simp
    then show ?thesis using tt rt by (simp add: Text_parse_same del: xml_text.simps)
  next
    case (Some v)
    with "4.prems"(2) have rest: "parse_subnodes (Text_parse d v) node ds = Inr r"
      by simp
    have rt: "text_of r = v"
      using parse_simple_text[OF _ rest] "4.prems"(1) Some by simp
    have "parse_subnodes (Text_parse d v) (Some t) ds = Inr r"
      using "4.IH"[OF _ rest] "4.prems" by simp
    then show ?thesis using tt rt by (simp del: xml_text.simps)
  qed
next
  case (5 nm args ds d)
  then show ?case by simp
next
  case (6 nm args ds d)
  have fresh: "subnodes_at d nm = []" using "6.prems"(6) by simp
  from "6.prems"(2) obtain l where
    lp: "NodeList_loop nm args [] (children node nm) = Inr l" and
    rest: "parse_subnodes (set_subnodes d nm l) node ds = Inr r"
    using fresh by (auto split: sum.splits)
  have rl: "subnodes r nm = Some l"
    using parse_simple_other_lists[OF _ rest, of nm] "6.prems"(1) by simp
  from "6.prems"(5) rl have tl: "NodeList_loop nm args [] (children (Some t) nm) = Inr l"
    by auto
  have "parse_subnodes (set_subnodes d nm l) (Some t) ds = Inr r"
  proof (rule "6.IH"(2)[OF _ rest])
    show "simple_args ds" using "6.prems"(1) by simp
    show "\<forall>a\<in>own_attributes ds. attribute (Some t) a = attributes r a"
      using "6.prems"(3) by simp
    show "has_text ds \<longrightarrow> xml_text (Some t) = Some (text_of r)"
      using "6.prems"(4) by simp
    show "\<forall>nm iargs. NodeList nm iargs \<in> set ds \<longrightarrow>
       (\<exists>subs. subnodes r nm = Some subs \<and>
          NodeList_loop nm iargs [] (children (Some t) nm) = Inr subs)"
      using "6.prems"(5) by simp
    show "\<forall>k\<in>own_lists ds. subnodes (set_subnodes d nm l) k = None"
      using "6.prems"(1,6) by auto
  qed
  then show ?case using tl fresh by (simp del: children.simps)
qed

subsection \<open>Serializing under a simple schema\<close>

lemma Node_serialize_Inr_iff:
  "Node_serialize nm args p c = Inr p' \<longleftrightarrow>
     (\<exists>node. built args c node \<and> c_str (name c) = nm \<and> p' = append_child p node)"
  by (auto split: sum.splits if_splits dest: serialize_subnodes_tag)

lemma append_child_sel [simp]:
  "attrs (append_child p c) = attrs p"
  "content (append_child p c) = content p @ [Child c]"
  by (cases p; simp)+

lemma NodeList_serialize_loop_Inr_iff:
  "NodeList_serialize_loop nm args p cs = Inr p' \<longleftrightarrow>
     (\<exists>nodes. list_all2 (\<lambda>c node. built args c node \<and> c_str (name c) = nm) cs nodes \<and>
        p' = Element (tag p) (attrs p) (content p @ map Child nodes))"
proof (induction cs arbitrary: p)
  case Nil
  then show ?case by (cases p) auto
next
  case (Cons c cs)
  show ?case
  proof (cases "Node_serialize nm args p c")
    case (Inl err)
    then have "\<not> (\<exists>node. built args c node \<and> c_str (name c) = nm)"
      using Node_serialize_Inr_iff[of nm args p c] by auto
    with Inl show ?thesis by (auto simp: list_all2_Cons1 simp del: Node_serialize.simps)
  next
    case (Inr p1)
    then obtain node where n: "built args c node" "c_str (name c) = nm" "p1 = append_child p node"
      unfolding Node_serialize_Inr_iff by blast
    show ?thesis
      using Inr n Cons[of p1]
      by (auto simp: list_all2_Cons1 simp del: Node_serialize.simps)
  qed
qed

lemma mutator_sel [simp]:
  "attrs (append_attribute p a v) = attrs p @ [(a, v)]"
  "content (append_attribute p a v) = content p"
  "attrs (set_text p s) = attrs p"
  "content (set_text p s) = set_first_pcdata (content p) s"
  by (cases p; simp)+

lemma first_pcdata_append_children [simp]:
  "first_pcdata (cs @ map Child nodes) = first_pcdata cs"
proof (induction cs rule: first_pcdata.induct)
  case 1
  show ?case by (induction nodes) simp_all
qed simp_all

lemma named_children_set_first_pcdata [simp]:
  "named_children (set_first_pcdata cs v) k = named_children cs k"
  by (induction cs v rule: set_first_pcdata.induct) simp_all

lemma named_children_same_tag:
  "\<forall>n \<in> set nodes. tag n = nm \<Longrightarrow>
     named_children (map Child nodes) k = (if k = nm then nodes else [])"
  by (induction nodes) auto

lemma Attribute_serialize_sel:
  "tag (Attribute_serialize a p r) = tag p"
  "content (Attribute_serialize a p r) = content p"
  "map_of (attrs (Attribute_serialize a p r)) k =
     (case map_of (attrs p) k of
        Some x \<Rightarrow> Some x
      | None \<Rightarrow> if k = a then map_option c_str (attributes r a) else None)"
  by (auto simp: Attribute_serialize_def map_add_def split: option.splits)

lemma Text_serialize_sel:
  "tag (Text_serialize p r) = tag p"
  "attrs (Text_serialize p r) = attrs p"
  "content (Text_serialize p r) = set_first_pcdata (content p) (c_str (text_of r))"
  by (simp_all add: Text_serialize_def)

lemma loop_sel:
  assumes "NodeList_serialize_loop nm args p l = Inr p1"
  obtains nodes where "list_all2 (\<lambda>c node. built args c node \<and> c_str (name c) = nm) l nodes"
    and "tag p1 = tag p" and "attrs p1 = attrs p"
    and "content p1 = content p @ map Child nodes"
  using assms unfolding NodeList_serialize_loop_Inr_iff by auto

lemma serialize_simple_attributes:
  "simple_args ds \<Longrightarrow> serialize_subnodes p r ds = Inr t \<Longrightarrow>
     map_of (attrs t) k =
       (case map_of (attrs p) k of
          Some v \<Rightarrow> Some v
        | None \<Rightarrow> if k \<in> own_attributes ds then map_option c_str (attributes r k) else None)"
proof (induction ds arbitrary: p rule: simple_args.induct)
  case (1 p)
  then show ?case by (simp split: option.splits)
next
  case (2 ds p)
  then show ?case by simp
next
  case (3 a args ds p)
  from "3.prems" have "map_of (attrs t) k =
       (case map_of (attrs (Attribute_serialize a p r)) k of
          Some v \<Rightarrow> Some v
        | None \<Rightarrow> if k \<in> own_attributes ds then map_option c_str (attributes r k) else None)"
    using "3.IH"[of "Attribute_serialize a p r"] by simp
  then show ?case
    by (simp add: Attribute_serialize_sel split: option.splits)
next
  case (4 args ds p)
  from "4.prems" have "map_of (attrs t) k =
       (case map_of (attrs (Text_serialize p r)) k of
          Some v \<Rightarrow> Some v
        | None \<Rightarrow> if k \<in> own_attributes ds then map_option c_str (attributes r k) else None)"
    using "4.IH"[of "Text_serialize p r"] by simp
  then show ?case by (simp add: Text_serialize_sel)
next
  case (5 nm args ds p)
  then show ?case by simp
next
  case (6 nm args ds p)
  show ?case
  proof (cases "subnodes r nm")
    case None
    then show ?thesis using "6.IH"(2)[of p] "6.prems" by simp
  next
    case (Some l)
    with "6.prems"(2) obtain p1 where
      lp: "NodeList_serialize_loop nm args p l = Inr p1" and
      rest: "serialize_subnodes p1 r ds = Inr t"
      by (auto split: sum.splits)
    from lp have "attrs p1 = attrs p" by (rule loop_sel)
    then show ?thesis using "6.IH"(2)[OF _ rest] "6.prems"(1) by simp
  qed
qed

lemma built_tag: "built args c node \<Longrightarrow> tag node = c_str (name c)"
  by (auto dest: serialize_subnodes_tag)

lemma serialize_simple_text:
  "simple_args ds \<Longrightarrow> serialize_subnodes p r ds = Inr t \<Longrightarrow>
     first_pcdata (content t) =
       (if has_text ds then Some (c_str (text_of r)) else first_pcdata (content p))"
proof (induction ds arbitrary: p rule: simple_args.induct)
  case (3 a args ds p)
  then show ?case using "3.IH"[of "Attribute_serialize a p r"]
    by (simp add: Attribute_serialize_sel)
next
  case (4 args ds p)
  then show ?case using "4.IH"[of "Text_serialize p r"]
    by (simp add: Text_serialize_sel)
next
  case (6 nm args ds p)
  show ?case
  proof (cases "subnodes r nm")
    case None
    then show ?thesis using "6.IH"(2)[of p] "6.prems" by simp
  next
    case (Some l)
    with "6.prems"(2) obtain p1 where
      lp: "NodeList_serialize_loop nm args p l = Inr p1" and
      rest: "serialize_subnodes p1 r ds = Inr t"
      by (auto split: sum.splits)
    from lp have "first_pcdata (content p1) = first_pcdata (content p)"
      by (rule loop_sel) simp
    then show ?thesis using "6.IH"(2)[OF _ rest] "6.prems"(1) by simp
  qed
qed simp_all

lemma loop_named_children:
  assumes "NodeList_serialize_loop nm args p l = Inr p1"
  shows "\<exists>nodes. list_all2 (\<lambda>c node. built args c node \<and> c_str (name c) = nm) l nodes \<and>
    (\<forall>k. named_children (content p1) k =
           named_children (content p) k @ (if k = nm then nodes else []))"
proof -
  from assms obtain nodes where
    n: "list_all2 (\<lambda>c node. built args c node \<and> c_str (name c) = nm) l nodes" and
    c: "content p1 = content p @ map Child nodes"
    by (rule loop_sel)
  have "\<forall>x \<in> set nodes. tag x = nm"
  proof
    fix x assume "x \<in> set nodes"
    then obtain c where "built args c x \<and> c_str (name c) = nm"
      using n by (auto simp: list_all2_conv_all_nth in_set_conv_nth)
    then show "tag x = nm" by (auto dest: built_tag)
  qed
  then have "\<forall>k. named_children (content p1) k =
           named_children (content p) k @ (if k = nm then nodes else [])"
    using c by (simp add: named_children_same_tag)
  with n show ?thesis by blast
qed

lemma serialize_simple_other_children:
  "simple_args ds \<Longrightarrow> serialize_subnodes p r ds = Inr t \<Longrightarrow> k \<notin> own_lists ds \<Longrightarrow>
     named_children (content t) k = named_children (content p) k"
proof (induction ds arbitrary: p rule: simple_args.induct)
  case (3 a args ds p)
  then show ?case using "3.IH"[of "Attribute_serialize a p r"]
    by (simp add: Attribute_serialize_sel)
next
  case (4 args ds p)
  then show ?case using "4.IH"[of "Text_serialize p r"]
    by (simp add: Text_serialize_sel)
next
  case (6 nm args ds p)
  show ?case
  proof (cases "subnodes r nm")
    case None
    then show ?thesis using "6.IH"(2)[of p] "6.prems" by simp
  next
    case (Some l)
    with "6.prems"(2) obtain p1 where
      lp: "NodeList_serialize_loop nm args p l = Inr p1" and
      rest: "serialize_subnodes p1 r ds = Inr t"
      by (auto split: sum.splits)
    from loop_named_children[OF lp] obtain nodes where
      "named_children (content p1) k =
         named_children (content p) k @ (if k = nm then nodes else [])"
      by blast
    then have "named_children (content p1) k = named_children (content p) k"
      using "6.prems"(3) by simp
    then show ?thesis using "6.IH"(2)[OF _ rest] "6.prems"(1,3) by simp
  qed
qed simp_all

lemma serialize_simple_list_children:
  "simple_args ds \<Longrightarrow> serialize_subnodes p r ds = Inr t \<Longrightarrow> NodeList k iargs \<in> set ds \<Longrightarrow>
     \<exists>nodes. list_all2 (\<lambda>c node. built iargs c node \<and> c_str (name c) = k) (subnodes_at r k) nodes \<and>
       named_children (content t) k = named_children (content p) k @ nodes"
proof (induction ds arbitrary: p rule: simple_args.induct)
  case (3 a args ds p)
  then show ?case using "3.IH"[of "Attribute_serialize a p r"]
    by (simp add: Attribute_serialize_sel)
next
  case (4 args ds p)
  then show ?case using "4.IH"[of "Text_serialize p r"]
    by (simp add: Text_serialize_sel)
next
  case (6 nm args ds p)
  show ?case
  proof (cases "NodeList k iargs = NodeList nm args")
    case True
    then have eq: "k = nm" "iargs = args" by simp_all
    have fresh: "nm \<notin> own_lists ds" and sd: "simple_args ds" using "6.prems"(1) by simp_all
    show ?thesis
    proof (cases "subnodes r nm")
      case None
      with "6.prems"(2) have rest: "serialize_subnodes p r ds = Inr t" by simp
      have "named_children (content t) nm = named_children (content p) nm"
        using serialize_simple_other_children[OF sd rest fresh] .
      then show ?thesis using None eq by simp
    next
      case (Some l)
      with "6.prems"(2) obtain p1 where
        lp: "NodeList_serialize_loop nm args p l = Inr p1" and
        rest: "serialize_subnodes p1 r ds = Inr t"
        by (auto split: sum.splits)
      from loop_named_children[OF lp] obtain nodes where
        n: "list_all2 (\<lambda>c node. built args c node \<and> c_str (name c) = nm) l nodes" and
        c0: "named_children (content p1) nm =
           named_children (content p) nm @ (if nm = nm then nodes else [])"
        by blast
      have c: "named_children (content p1) nm = named_children (content p) nm @ nodes"
        using c0 by simp
      have "named_children (content t) nm = named_children (content p1) nm"
        using serialize_simple_other_children[OF sd rest fresh] .
      then show ?thesis using n c Some eq by auto
    qed
  next
    case False
    with "6.prems"(3) have m: "NodeList k iargs \<in> set ds" by auto
    then have ne: "k \<noteq> nm" using "6.prems"(1) own_lists_member by auto
    show ?thesis
    proof (cases "subnodes r nm")
      case None
      then show ?thesis using "6.IH"(2)[of p] "6.prems"(1,2) m by simp
    next
      case (Some l)
      with "6.prems"(2) obtain p1 where
        lp: "NodeList_serialize_loop nm args p l = Inr p1" and
        rest: "serialize_subnodes p1 r ds = Inr t"
        by (auto split: sum.splits)
      from loop_named_children[OF lp] obtain nodes where
        "named_children (content p1) k =
           named_children (content p) k @ (if k = nm then nodes else [])"
        by blast
      then have "named_children (content p1) k = named_children (content p) k"
        using ne by simp
      then show ?thesis using "6.IH"(2)[OF _ rest m] "6.prems"(1) by simp
    qed
  qed
qed simp_all

lemma list_all2_exists:
  "\<forall>x \<in> set xs. \<exists>y. P x y \<Longrightarrow> \<exists>ys. list_all2 P xs ys"
proof (induction xs)
  case Nil
  then show ?case by simp
next
  case (Cons x xs)
  then obtain y ys where "P x y" "list_all2 P xs ys" by auto
  then have "list_all2 P (x # xs) (y # ys)" by simp
  then show ?case by blast
qed

lemma serialize_simple_succeeds:
  assumes "simple_args ds"
    and "\<And>nm iargs c. NodeList nm iargs \<in> set ds \<Longrightarrow> c \<in> set (subnodes_at r nm) \<Longrightarrow>
           \<exists>node. built iargs c node \<and> c_str (name c) = nm"
  shows "\<exists>t. serialize_subnodes p r ds = Inr t"
  using assms
proof (induction ds arbitrary: p rule: simple_args.induct)
  case (1 p)
  show ?case by simp
next
  case (2 ds p)
  have "\<exists>t. serialize_subnodes p r ds = Inr t"
  proof (rule "2.IH")
    show "simple_args ds" using "2.prems"(1) by simp
    show "\<exists>node. built iargs c node \<and> c_str (name c) = k"
      if "NodeList k iargs \<in> set ds" "c \<in> set (subnodes_at r k)" for k iargs c
      by (rule "2.prems"(2)) (use that in simp_all)
  qed
  then show ?case by simp
next
  case (3 a args ds p)
  have "\<exists>t. serialize_subnodes (Attribute_serialize a p r) r ds = Inr t"
  proof (rule "3.IH")
    show "simple_args ds" using "3.prems"(1) by simp
    show "\<exists>node. built iargs c node \<and> c_str (name c) = k"
      if "NodeList k iargs \<in> set ds" "c \<in> set (subnodes_at r k)" for k iargs c
      by (rule "3.prems"(2)) (use that in simp_all)
  qed
  then show ?case by simp
next
  case (4 args ds p)
  have "\<exists>t. serialize_subnodes (Text_serialize p r) r ds = Inr t"
  proof (rule "4.IH")
    show "simple_args ds" using "4.prems"(1) by simp
    show "\<exists>node. built iargs c node \<and> c_str (name c) = k"
      if "NodeList k iargs \<in> set ds" "c \<in> set (subnodes_at r k)" for k iargs c
      by (rule "4.prems"(2)) (use that in simp_all)
  qed
  then show ?case by simp
next
  case (5 nm args ds p)
  then show ?case by simp
next
  case (6 nm args ds p)
  have rest: "\<exists>t. serialize_subnodes p1 r ds = Inr t" for p1
  proof (rule "6.IH"(2))
    show "simple_args ds" using "6.prems"(1) by simp
    show "\<exists>node. built iargs c node \<and> c_str (name c) = k"
      if "NodeList k iargs \<in> set ds" "c \<in> set (subnodes_at r k)" for k iargs c
      by (rule "6.prems"(2)) (use that in simp_all)
  qed
  show ?case
  proof (cases "subnodes r nm")
    case None
    then show ?thesis using rest by simp
  next
    case (Some l)
    have all: "\<forall>c \<in> set l. \<exists>node. built args c node \<and> c_str (name c) = nm"
    proof
      fix c assume "c \<in> set l"
      then have "c \<in> set (subnodes_at r nm)" using Some by simp
      then show "\<exists>node. built args c node \<and> c_str (name c) = nm"
        by (rule "6.prems"(2)[rotated]) simp
    qed
    have "\<exists>nodes. list_all2 (\<lambda>c node. built args c node \<and> c_str (name c) = nm) l nodes"
      using all by (rule list_all2_exists)
    then have "\<exists>p1. NodeList_serialize_loop nm args p l = Inr p1"
      unfolding NodeList_serialize_loop_Inr_iff
      by (elim exE) (intro exI conjI, assumption, rule refl)
    then obtain p1 where lp: "NodeList_serialize_loop nm args p l = Inr p1" ..
    from rest[of p1] obtain t where "serialize_subnodes p1 r ds = Inr t" ..
    then show ?thesis using Some lp by simp
  qed
qed

lemma list_all2_rhs_ex: "list_all2 P xs ys \<Longrightarrow> y \<in> set ys \<Longrightarrow> \<exists>x. P x y"
  by (induction rule: list_all2_induct) auto

lemma parse_Node_Inr:
  "parse load_buffer s (Node nm args) = Inr r \<Longrightarrow>
     parse_subnodes (set_name empty_data nm) (document_element (snd (load_buffer s))) args = Inr r"
  by (simp split: sum.splits)

subsection \<open>Every record of a result\<close>

lemma all_records_iff:
  "all_records P r \<longleftrightarrow>
     P r \<and> (\<forall>k l. subnodes r k = Some l \<longrightarrow> (\<forall>c \<in> set l. all_records P c))"
proof
  assume a: "all_records P r"
  have "P r" using a unfolding all_records_def by (metis sub_record.simps(1))
  moreover have "all_records P c" if s: "subnodes r k = Some l" and c: "c \<in> set l" for k l c
  proof -
    from c obtain i where i: "i < length l" "l ! i = c" by (auto simp: in_set_conv_nth)
    have "sub_record r ((k, i) # p) = sub_record c p" for p
      using s i by simp
    then show ?thesis using a unfolding all_records_def by metis
  qed
  ultimately show "P r \<and> (\<forall>k l. subnodes r k = Some l \<longrightarrow> (\<forall>c \<in> set l. all_records P c))"
    by blast
next
  assume b: "P r \<and> (\<forall>k l. subnodes r k = Some l \<longrightarrow> (\<forall>c \<in> set l. all_records P c))"
  show "all_records P r"
    unfolding all_records_def
  proof (intro allI impI)
    fix p r'
    assume sr: "sub_record r p = Some r'"
    show "P r'"
    proof (cases p)
      case Nil
      with sr b show ?thesis by simp
    next
      case (Cons x q)
      obtain k i where x: "x = (k, i)" by (cases x)
      from sr Cons x obtain l where
        l: "subnodes r k = Some l" "i < length l" "sub_record (l ! i) q = Some r'"
        by (auto split: option.splits if_splits)
      then have "all_records P (l ! i)" using b by simp
      then show ?thesis using l(3) unfolding all_records_def by blast
    qed
  qed
qed

lemma c_record_iff:
  "c_record r \<longleftrightarrow>
     c_strings r \<and> (\<forall>k l. subnodes r k = Some l \<longrightarrow> (\<forall>c \<in> set l. c_record c))"
proof -
  have "c_record x = all_records c_strings x" for x
    by (simp add: c_record_def all_records_def)
  then show ?thesis using all_records_iff[of c_strings r] by simp
qed

lemma c_record_leaf: "c_strings r \<Longrightarrow> subnodes r = Map.empty \<Longrightarrow> c_record r"
  by (subst c_record_iff) simp

lemma keys_within_updates:
  "keys_within A L d \<Longrightarrow> nm \<in> A \<Longrightarrow> keys_within A L (Attribute_parse nm d v)"
  "keys_within A L d \<Longrightarrow> keys_within A L (Text_parse d v)"
  "keys_within A L d \<Longrightarrow> keys_within A L (set_name d n)"
  "keys_within A L d \<Longrightarrow> nm \<in> L \<Longrightarrow> keys_within A L (set_subnodes d nm l)"
  "keys_within A L empty_data"
  by (auto simp: keys_within_def empty_data_def)

lemma all_keys_within_updates:
  "all_records (keys_within A L) d \<Longrightarrow> nm \<in> A \<Longrightarrow>
     all_records (keys_within A L) (Attribute_parse nm d v)"
  "all_records (keys_within A L) d \<Longrightarrow> all_records (keys_within A L) (Text_parse d v)"
  "all_records (keys_within A L) d \<Longrightarrow> all_records (keys_within A L) (set_name d n)"
  by (subst all_records_iff, subst (asm) all_records_iff, simp add: keys_within_updates)+

lemma all_keys_within_empty [simp]: "all_records (keys_within A L) empty_data"
proof (subst all_records_iff, intro conjI)
  show "keys_within A L empty_data" by (rule keys_within_updates)
  show "\<forall>k l. subnodes empty_data k = Some l \<longrightarrow> (\<forall>c\<in>set l. all_records (keys_within A L) c)"
    by (simp add: empty_data_def)
qed

lemma all_keys_within_set_subnodes:
  assumes "all_records (keys_within A L) d" and "nm \<in> L"
    and "\<forall>c \<in> set l. all_records (keys_within A L) c"
  shows "all_records (keys_within A L) (set_subnodes d nm l)"
proof (subst all_records_iff, intro conjI allI impI ballI)
  show "keys_within A L (set_subnodes d nm l)"
    using assms(1,2) by (subst (asm) all_records_iff) (simp add: keys_within_updates)
next
  fix k l' c
  assume s: "subnodes (set_subnodes d nm l) k = Some l'" and c: "c \<in> set l'"
  show "all_records (keys_within A L) c"
  proof (cases "k = nm")
    case True
    with s c assms(3) show ?thesis by simp
  next
    case False
    with s have "subnodes d k = Some l'" by simp
    with assms(1) c show ?thesis by (subst (asm) all_records_iff) blast
  qed
qed

lemma all_keys_within_subnodes_at:
  "all_records (keys_within A L) d \<Longrightarrow> c \<in> set (subnodes_at d nm) \<Longrightarrow>
     all_records (keys_within A L) c"
  by (subst (asm) all_records_iff) (cases "subnodes d nm"; simp)

lemma parse_keeps_keys_within:
  "attribute_names_list ds \<subseteq> A \<Longrightarrow> list_names_list ds \<subseteq> L \<Longrightarrow>
   all_records (keys_within A L) d \<Longrightarrow> parse_subnodes d node ds = Inr r \<Longrightarrow>
     all_records (keys_within A L) r"
proof (induction ds arbitrary: d node r rule: args_induct)
  case Nil
  then show ?case by simp
next
  case (Required ds)
  then show ?case by simp
next
  case (Attribute nm args ds)
  have nm: "nm \<in> A" using Attribute.prems(1) by simp
  from Attribute.prems(4) obtain d1 where
    d1: "d1 = d \<or> (\<exists>v. d1 = Attribute_parse nm d v)" and
    rest: "parse_subnodes d1 node ds = Inr r"
    by (auto split: option.splits if_splits)
  have "all_records (keys_within A L) d1"
    using d1 Attribute.prems(3) nm by (auto simp: all_keys_within_updates)
  then show ?case using Attribute.IH[OF _ _ _ rest] Attribute.prems(1,2) by simp
next
  case (Text args ds)
  from Text.prems(4) obtain d1 where
    d1: "d1 = d \<or> (\<exists>v. d1 = Text_parse d v)" and
    rest: "parse_subnodes d1 node ds = Inr r"
    by (auto split: option.splits if_splits)
  have "all_records (keys_within A L) d1"
    using d1 Text.prems(3) by (auto simp: all_keys_within_updates)
  then show ?case using Text.IH[OF _ _ _ rest] Text.prems(1,2) by simp
next
  case (Node nm args ds)
  have na: "attribute_names_list args \<subseteq> A" "list_names_list args \<subseteq> L"
    and nd: "attribute_names_list ds \<subseteq> A" "list_names_list ds \<subseteq> L"
    using Node.prems(1,2) by simp_all
  show ?case
  proof (cases "child node nm")
    case None
    with Node.prems(4) have "parse_subnodes d node ds = Inr r" by (simp split: if_splits)
    then show ?thesis using Node.IH(2)[OF nd Node.prems(3)] by simp
  next
    case (Some e)
    with Node.prems(4) obtain d1 where
      i: "parse_subnodes (set_name d nm) (Some e) args = Inr d1" and
      rest: "parse_subnodes d1 node ds = Inr r"
      by (auto split: sum.splits)
    have "all_records (keys_within A L) (set_name d nm)"
      using Node.prems(3) by (simp add: all_keys_within_updates)
    then have "all_records (keys_within A L) d1"
      using Node.IH(1)[OF na _ i] by simp
    then show ?thesis using Node.IH(2)[OF nd _ rest] by simp
  qed
next
  case (NodeList nm args ds)
  have na: "attribute_names_list args \<subseteq> A" "list_names_list args \<subseteq> L"
    and nd: "attribute_names_list ds \<subseteq> A" "list_names_list ds \<subseteq> L"
    and nm: "nm \<in> L"
    using NodeList.prems(1,2) by simp_all
  from NodeList.prems(4) obtain l where
    lp: "NodeList_loop nm args (subnodes_at d nm) (children node nm) = Inr l" and
    rest: "parse_subnodes (set_subnodes d nm l) node ds = Inr r"
    by (auto split: sum.splits)
  from lp obtain subs where
    subs: "list_all2 (parsed nm args) (children node nm) subs" and
    l: "l = subnodes_at d nm @ subs"
    unfolding NodeList_loop_Inr_iff by blast
  have "all_records (keys_within A L) c" if "c \<in> set l" for c
  proof (cases "c \<in> set (subnodes_at d nm)")
    case True
    then show ?thesis using NodeList.prems(3) by (rule all_keys_within_subnodes_at[rotated])
  next
    case False
    with that l have "c \<in> set subs" by simp
    from list_all2_rhs_ex[OF subs this] obtain x where
      x: "parse_subnodes (set_name empty_data nm) (Some x) args = Inr c" by auto
    have "all_records (keys_within A L) (set_name empty_data nm)"
      by (simp add: all_keys_within_updates)
    then show ?thesis using NodeList.IH(1)[OF na _ x] by simp
  qed
  then have "all_records (keys_within A L) (set_subnodes d nm l)"
    using NodeList.prems(3) nm by (auto intro: all_keys_within_set_subnodes)
  then show ?case using NodeList.IH(2)[OF nd _ rest] by simp
qed

subsection \<open>A parsed record holds C strings\<close>

lemma c_element_attribute:
  "c_node node \<Longrightarrow> attribute node k = Some v \<Longrightarrow> c_str v = v"
  by (cases node) (auto elim!: c_element.cases dest: map_of_SomeD)

lemma first_pcdata_mem: "first_pcdata cs = Some s \<Longrightarrow> PCData s \<in> set cs"
  by (induction cs rule: first_pcdata.induct) auto

lemma c_element_text: "c_node node \<Longrightarrow> xml_text node = Some s \<Longrightarrow> c_str s = s"
  by (cases node) (auto elim!: c_element.cases dest: first_pcdata_mem)

lemma named_children_mem: "e \<in> set (named_children cs k) \<Longrightarrow> Child e \<in> set cs"
  by (induction cs k rule: named_children.induct) (auto split: if_splits)

lemma c_element_children: "c_node node \<Longrightarrow> e \<in> set (children node k) \<Longrightarrow> c_element e"
  by (cases node) (auto elim!: c_element.cases dest: named_children_mem)

lemma c_element_child: "c_node node \<Longrightarrow> child node k = Some e \<Longrightarrow> c_element e"
  using c_element_children[of node e k]
  by (auto simp: child_def split: list.splits simp del: children.simps)

lemma c_strings_updates:
  "c_strings d \<Longrightarrow> c_str v = v \<Longrightarrow> c_strings (Attribute_parse nm d v)"
  "c_strings d \<Longrightarrow> c_str v = v \<Longrightarrow> c_strings (Text_parse d v)"
  "c_strings d \<Longrightarrow> c_str n = n \<Longrightarrow> c_strings (set_name d n)"
  "c_strings d \<Longrightarrow> c_strings (set_subnodes d nm l)"
  "c_strings empty_data"
  by (auto simp: c_strings_def empty_data_def)

lemma c_record_updates:
  "c_record d \<Longrightarrow> c_str v = v \<Longrightarrow> c_record (Attribute_parse nm d v)"
  "c_record d \<Longrightarrow> c_str v = v \<Longrightarrow> c_record (Text_parse d v)"
  "c_record d \<Longrightarrow> c_str n = n \<Longrightarrow> c_record (set_name d n)"
  by (subst c_record_iff, subst (asm) c_record_iff, simp add: c_strings_updates)+

lemma c_record_empty [simp]: "c_record empty_data"
  by (rule c_record_leaf) (simp_all add: c_strings_updates, simp add: empty_data_def)

lemma c_record_set_subnodes:
  assumes "c_record d" and "\<forall>c \<in> set l. c_record c"
  shows "c_record (set_subnodes d nm l)"
proof (subst c_record_iff, intro conjI allI impI ballI)
  show "c_strings (set_subnodes d nm l)"
    using assms(1) by (subst (asm) c_record_iff) (simp add: c_strings_updates)
next
  fix k l' c
  assume s: "subnodes (set_subnodes d nm l) k = Some l'" and c: "c \<in> set l'"
  show "c_record c"
  proof (cases "k = nm")
    case True
    with s c assms(2) show ?thesis by simp
  next
    case False
    with s have "subnodes d k = Some l'" by simp
    with assms(1) c show ?thesis by (subst (asm) c_record_iff) blast
  qed
qed

lemma c_record_subnodes_at: "c_record d \<Longrightarrow> c \<in> set (subnodes_at d nm) \<Longrightarrow> c_record c"
  by (subst (asm) c_record_iff) (cases "subnodes d nm"; simp)

lemma parse_keeps_c_record:
  "c_names ds \<Longrightarrow> c_node node \<Longrightarrow> c_record d \<Longrightarrow> parse_subnodes d node ds = Inr r \<Longrightarrow>
     c_record r"
proof (induction ds arbitrary: d node r rule: args_induct)
  case Nil
  then show ?case by simp
next
  case (Required ds)
  then show ?case by simp
next
  case (Attribute nm args ds)
  show ?case
  proof (cases "attribute node nm")
    case None
    with Attribute.prems(4) have "parse_subnodes d node ds = Inr r" by (simp split: if_splits)
    then show ?thesis using Attribute.IH[OF _ Attribute.prems(2,3)] Attribute.prems(1) by simp
  next
    case (Some v)
    with Attribute.prems(4) have rest: "parse_subnodes (Attribute_parse nm d v) node ds = Inr r"
      by simp
    have "c_str v = v" using c_element_attribute[OF Attribute.prems(2) Some] .
    then have "c_record (Attribute_parse nm d v)"
      using Attribute.prems(3) by (simp add: c_record_updates)
    then show ?thesis using Attribute.IH[OF _ Attribute.prems(2) _ rest] Attribute.prems(1) by simp
  qed
next
  case (Text args ds)
  show ?case
  proof (cases "xml_text node")
    case None
    with Text.prems(4) have "parse_subnodes d node ds = Inr r" by (simp split: if_splits)
    then show ?thesis using Text.IH[OF _ Text.prems(2,3)] Text.prems(1) by simp
  next
    case (Some v)
    with Text.prems(4) have rest: "parse_subnodes (Text_parse d v) node ds = Inr r"
      by simp
    have "c_str v = v" using c_element_text[OF Text.prems(2) Some] .
    then have "c_record (Text_parse d v)"
      using Text.prems(3) by (simp add: c_record_updates)
    then show ?thesis using Text.IH[OF _ Text.prems(2) _ rest] Text.prems(1) by simp
  qed
next
  case (Node nm args ds)
  have nn: "c_str nm = nm" "c_names args" "c_names ds" using Node.prems(1) by simp_all
  show ?case
  proof (cases "child node nm")
    case None
    with Node.prems(4) have "parse_subnodes d node ds = Inr r" by (simp split: if_splits)
    then show ?thesis using Node.IH(2)[OF nn(3) Node.prems(2,3)] by simp
  next
    case (Some e)
    with Node.prems(4) obtain d1 where
      i: "parse_subnodes (set_name d nm) (Some e) args = Inr d1" and
      rest: "parse_subnodes d1 node ds = Inr r"
      by (auto split: sum.splits)
    have ce: "c_node (Some e)" using c_element_child[OF Node.prems(2) Some] by simp
    have "c_record (set_name d nm)" using Node.prems(3) nn(1) by (simp add: c_record_updates)
    then have "c_record d1" using Node.IH(1)[OF nn(2) ce _ i] by simp
    then show ?thesis using Node.IH(2)[OF nn(3) Node.prems(2) _ rest] by simp
  qed
next
  case (NodeList nm args ds)
  have nn: "c_str nm = nm" "c_names args" "c_names ds" using NodeList.prems(1) by simp_all
  from NodeList.prems(4) obtain l where
    lp: "NodeList_loop nm args (subnodes_at d nm) (children node nm) = Inr l" and
    rest: "parse_subnodes (set_subnodes d nm l) node ds = Inr r"
    by (auto split: sum.splits)
  from lp obtain subs where
    subs: "list_all2 (parsed nm args) (children node nm) subs" and
    l: "l = subnodes_at d nm @ subs"
    unfolding NodeList_loop_Inr_iff by blast
  have "c_record c" if "c \<in> set l" for c
  proof (cases "c \<in> set (subnodes_at d nm)")
    case True
    then show ?thesis using NodeList.prems(3) by (rule c_record_subnodes_at[rotated])
  next
    case False
    with that l have cin: "c \<in> set subs" by simp
    have "\<exists>x. x \<in> set (children node nm) \<and> parsed nm args x c"
      using subs cin by (induction rule: list_all2_induct) auto
    then obtain x where
      xin: "x \<in> set (children node nm)" and
      x: "parse_subnodes (set_name empty_data nm) (Some x) args = Inr c" by auto
    have ce: "c_node (Some x)" using c_element_children[OF NodeList.prems(2) xin] by simp
    have "c_record (set_name empty_data nm)" using nn(1) by (simp add: c_record_updates)
    then show ?thesis using NodeList.IH(1)[OF nn(2) ce _ x] by simp
  qed
  then have "c_record (set_subnodes d nm l)"
    using NodeList.prems(3) by (auto intro: c_record_set_subnodes)
  then show ?case using NodeList.IH(2)[OF nn(3) NodeList.prems(2) _ rest] by simp
qed

lemma parse_gives_c_record:
  "c_str nm = nm \<Longrightarrow> c_names args \<Longrightarrow> c_node (document_element (snd (load_buffer s))) \<Longrightarrow>
   parse load_buffer s (Node nm args) = Inr r \<Longrightarrow> c_record r"
proof -
  assume n: "c_str nm = nm" and a: "c_names args"
    and c: "c_node (document_element (snd (load_buffer s)))"
    and p: "parse load_buffer s (Node nm args) = Inr r"
  have "c_record (set_name empty_data nm)" using n by (simp add: c_record_updates)
  then show ?thesis using parse_keeps_c_record[OF a c _ parse_Node_Inr[OF p]] by simp
qed

subsection \<open>Parsing what was serialized\<close>

lemma list_all2_swap_mono:
  "list_all2 P xs ys \<Longrightarrow> (\<And>x y. x \<in> set xs \<Longrightarrow> P x y \<Longrightarrow> Q y x) \<Longrightarrow> list_all2 Q ys xs"
  by (induction rule: list_all2_induct) auto

lemma round_trips_step:
  assumes simple: "simple_args ds"
    and inner: "\<And>k iargs. NodeList k iargs \<in> set ds \<Longrightarrow> round_trips iargs"
  shows "round_trips ds"
  unfolding round_trips_def
proof (intro allI impI)
  fix nm node r
  let ?d0 = "set_name empty_data nm"
  assume h: "parse_subnodes ?d0 node ds = Inr r \<and> c_record r"
  then have p: "parse_subnodes ?d0 node ds = Inr r" and cr: "c_record r" by simp_all
  from cr have cs: "c_strings r"
    and csub: "\<And>k l c. subnodes r k = Some l \<Longrightarrow> c \<in> set l \<Longrightarrow> c_record c"
    by (subst (asm) c_record_iff, blast)+
  have lists: "\<exists>subs. subnodes r k = Some subs \<and> list_all2 (parsed k iargs) (children node k) subs"
    if "NodeList k iargs \<in> set ds" for k iargs
    using parse_simple_list[OF simple p that] by (simp add: empty_data_def)
  have each: "\<exists>node. built iargs c node \<and> c_str (name c) = k \<and>
      parse_subnodes (set_name empty_data k) (Some node) iargs = Inr c"
    if m: "NodeList k iargs \<in> set ds" and c: "c \<in> set (subnodes_at r k)" for k iargs c
  proof -
    from lists[OF m] obtain subs where
      s: "subnodes r k = Some subs" "list_all2 (parsed k iargs) (children node k) subs"
      by blast
    with c have cin: "c \<in> set subs" by simp
    from list_all2_rhs_ex[OF s(2) this] obtain x where
      x: "parse_subnodes (set_name empty_data k) (Some x) iargs = Inr c" by auto
    have si: "simple_args iargs" using simple m by (rule simple_args_inner)
    have cc: "c_record c" using csub[OF s(1) cin] .
    then have "c_strings c" by (subst (asm) c_record_iff) blast
    then have "c_str (name c) = name c" by (simp add: c_strings_def)
    moreover have "name c = k" using parse_simple_name[OF si x] by simp
    ultimately have "c_str (name c) = k" by simp
    moreover from inner[OF m] x cc obtain t where
      "built iargs c t" "parse_subnodes (set_name empty_data k) (Some t) iargs = Inr c"
      unfolding round_trips_def by blast
    ultimately show ?thesis by blast
  qed
  have "\<exists>t. serialize_subnodes (Element (c_str (name r)) [] []) r ds = Inr t"
  proof (rule serialize_simple_succeeds[OF simple])
    show "\<exists>node. built iargs c node \<and> c_str (name c) = k"
      if "NodeList k iargs \<in> set ds" "c \<in> set (subnodes_at r k)" for k iargs c
      using each[OF that] by blast
  qed
  then obtain t where t: "built ds r t" ..
  have "parse_subnodes ?d0 (Some t) ds = Inr r"
  proof (rule reparse[OF simple p])
    show "\<forall>a\<in>own_attributes ds. attribute (Some t) a = attributes r a"
    proof
      fix a assume a: "a \<in> own_attributes ds"
      have "map_of (attrs t) a = map_option c_str (attributes r a)"
        using serialize_simple_attributes[OF simple t, of a] a by simp
      moreover have "map_option c_str (attributes r a) = attributes r a"
        using cs by (cases "attributes r a") (simp_all add: c_strings_def)
      ultimately show "attribute (Some t) a = attributes r a" by simp
    qed
    show "has_text ds \<longrightarrow> xml_text (Some t) = Some (text_of r)"
      using serialize_simple_text[OF simple t] cs by (simp add: c_strings_def)
    show "\<forall>k\<in>own_lists ds. subnodes ?d0 k = None"
      by (simp add: empty_data_def)
    show "\<forall>k iargs. NodeList k iargs \<in> set ds \<longrightarrow>
       (\<exists>subs. subnodes r k = Some subs \<and>
          NodeList_loop k iargs [] (children (Some t) k) = Inr subs)"
    proof (intro allI impI)
      fix k iargs
      assume m: "NodeList k iargs \<in> set ds"
      from lists[OF m] obtain subs where s: "subnodes r k = Some subs" by blast
      from serialize_simple_list_children[OF simple t m] s obtain nodes where
        n: "list_all2 (\<lambda>c node. built iargs c node \<and> c_str (name c) = k) subs nodes" and
        c: "children (Some t) k = nodes"
        by auto
      have "list_all2 (parsed k iargs) nodes subs"
      proof (rule list_all2_swap_mono[OF n])
        fix x y
        assume "x \<in> set subs" and b: "built iargs x y \<and> c_str (name x) = k"
        then have "x \<in> set (subnodes_at r k)" using s by simp
        from each[OF m this] b show "parsed k iargs y x" by auto
      qed
      then have "NodeList_loop k iargs [] (children (Some t) k) = Inr subs"
        unfolding NodeList_loop_Inr_iff c by simp
      with s show "\<exists>subs. subnodes r k = Some subs \<and>
          NodeList_loop k iargs [] (children (Some t) k) = Inr subs" by blast
    qed
  qed
  with t show "\<exists>t. built ds r t \<and> parse_subnodes ?d0 (Some t) ds = Inr r" by blast
qed

lemma round_trips_inner:
  "simple_args ds \<Longrightarrow> NodeList k iargs \<in> set ds \<Longrightarrow> round_trips iargs"
proof (induction ds arbitrary: k iargs rule: args_induct)
  case (NodeList nm args ds)
  show ?case
  proof (cases "NodeList k iargs = NodeList nm args")
    case True
    have sa: "simple_args args" using NodeList.prems(1) by simp
    have "round_trips args"
      by (rule round_trips_step[OF sa]) (rule NodeList.IH(1)[OF sa])
    with True show ?thesis by simp
  next
    case False
    then show ?thesis using NodeList.IH(2)[of k iargs] NodeList.prems by auto
  qed
qed auto

lemma simple_round_trips: "simple_args ds \<Longrightarrow> round_trips ds"
  by (rule round_trips_step) (auto intro: round_trips_inner)

lemma simple_list_parsed:
  assumes simple: "simple_args ds" and m: "NodeList k iargs \<in> set ds"
    and p: "parse_subnodes (set_name empty_data nm) node ds = Inr r"
  shows "\<exists>subs.
      subnodes r k = Some subs \<and>
      length subs = length (children node k) \<and>
      list_all2 (\<lambda>c sub. Node_parse k iargs empty_data (Some c) = Inr sub) (children node k) subs"
proof -
  from parse_simple_list[OF simple p m] obtain subs where
    s: "subnodes r k = Some subs" and
    l: "list_all2 (parsed k iargs) (children node k) subs"
    by (auto simp: empty_data_def)
  then show ?thesis using list_all2_lengthD[OF l] by auto
qed

lemma simple_list_emitted:
  assumes simple: "simple_args ds" and m: "NodeList k iargs \<in> set ds"
    and p: "parse_subnodes (set_name empty_data nm) node ds = Inr r"
    and cr: "c_record r" and s: "subnodes r k = Some subs"
  shows "\<exists>root.
      serialize_subnodes (Element (c_str (name r)) [] []) r ds = Inr root \<and> tag root = nm \<and>
      length (children (Some root) k) = length subs \<and>
      list_all2 (\<lambda>sub c. serialize_subnodes (Element (c_str (name sub)) [] []) sub iargs = Inr c)
        subs (children (Some root) k)"
proof -
  from simple_round_trips[OF simple] p cr obtain root where
    b: "built ds r root" unfolding round_trips_def by blast
  from serialize_simple_list_children[OF simple b m] s obtain nodes where
    n: "list_all2 (\<lambda>c node. built iargs c node \<and> c_str (name c) = k) subs nodes" and
    c: "children (Some root) k = nodes"
    by auto
  have n': "list_all2 (\<lambda>sub c. built iargs sub c) subs (children (Some root) k)"
    unfolding c by (rule list_all2_mono[OF n]) (erule conjunct1)
  have "name r = nm" using parse_simple_name[OF simple p] by simp
  moreover have "c_str (name r) = name r"
    using cr by (subst (asm) c_record_iff) (simp add: c_strings_def)
  ultimately have "tag root = nm" using built_tag[OF b] by simp
  with b n' show ?thesis
    using list_all2_lengthD[OF n'] by auto
qed

lemma c_record_two_data:
  "c_record (NodeData ''root'' []
       [''data'' \<mapsto> [NodeData ''data'' ''D1'' Map.empty [''id'' \<mapsto> ''1''],
                     NodeData ''data'' ''D2'' Map.empty [''id'' \<mapsto> ''2'']]]
       [''key'' \<mapsto> ''mykey''])"
proof -
  have a: "c_record (NodeData ''data'' ''D1'' Map.empty [''id'' \<mapsto> ''1''])"
    by (rule c_record_leaf) (simp_all add: c_strings_def)
  have b: "c_record (NodeData ''data'' ''D2'' Map.empty [''id'' \<mapsto> ''2''])"
    by (rule c_record_leaf) (simp_all add: c_strings_def)
  show ?thesis
    by (subst c_record_iff) (auto simp: c_strings_def a b split: if_splits)
qed

section \<open>Only declared names are captured\<close>

text \<open>
  Claim C2. If \<open>parse\<close> succeeds, then in the returned record and in every record
  nested in it, at any depth, every key of the attributes is the name of an
  \<^verbatim>\<open>Attribute\<close> descriptor of the schema, and every key of the subnodes is the inner
  name of a \<^verbatim>\<open>NodeList\<close> descriptor of the schema. What the document holds under other
  names is captured nowhere.
\<close>

theorem parse_declared_names_only:
  "parse load_buffer s (Node nm args) = Inr r \<Longrightarrow> sub_record r p = Some r' \<Longrightarrow>
     dom (attributes r') \<subseteq> attribute_names (Node nm args) \<and>
     dom (subnodes r') \<subseteq> list_names (Node nm args)"
proof -
  assume pr: "parse load_buffer s (Node nm args) = Inr r" and sr: "sub_record r p = Some r'"
  let ?node = "document_element (snd (load_buffer s))"
  let ?A = "attribute_names_list args" and ?L = "list_names_list args"
  from pr have q: "parse_subnodes (set_name empty_data nm) ?node args = Inr r"
    by (rule parse_Node_Inr)
  have "all_records (keys_within ?A ?L) (set_name empty_data nm)"
    by (simp add: all_keys_within_updates)
  then have "all_records (keys_within ?A ?L) r"
    using parse_keeps_keys_within[OF _ _ _ q, of ?A ?L] by simp
  then have "keys_within ?A ?L r'"
    using sr unfolding all_records_def by blast
  then show ?thesis by (simp add: keys_within_def)
qed

text \<open>
  The demonstration schema on the two-children document: the second record under
  \<^verbatim>\<open>data\<close> holds the key \<^verbatim>\<open>id\<close> and nothing else.
\<close>

theorem parse_declared_names_only_witness:
  "parse example_loader input_two_data xml =
     Inr (NodeData ''root'' []
       [''data'' \<mapsto> [NodeData ''data'' ''D1'' Map.empty [''id'' \<mapsto> ''1''],
                     NodeData ''data'' ''D2'' Map.empty [''id'' \<mapsto> ''2'']]]
       [''key'' \<mapsto> ''mykey'']) \<and>
   sub_record
     (NodeData ''root'' []
       [''data'' \<mapsto> [NodeData ''data'' ''D1'' Map.empty [''id'' \<mapsto> ''1''],
                     NodeData ''data'' ''D2'' Map.empty [''id'' \<mapsto> ''2'']]]
       [''key'' \<mapsto> ''mykey''])
     [(''data'', Suc 0)] = Some (NodeData ''data'' ''D2'' Map.empty [''id'' \<mapsto> ''2'']) \<and>
   dom [''id'' \<mapsto> ''2''] \<subseteq> attribute_names xml \<and>
   dom (Map.empty :: string \<Rightarrow> NodeData list option) \<subseteq> list_names xml"
  using parse_declared_names_only[where load_buffer = example_loader and s = input_two_data
      and nm = "''root''" and p = "[(''data'', Suc 0)]"
      and args = "[Required, Attribute ''key'' [Required], Attribute ''client_id'' [],
        NodeList ''data'' [Attribute ''id'' [Required], Text [Required]]]"
      and r = "NodeData ''root'' []
       [''data'' \<mapsto> [NodeData ''data'' ''D1'' Map.empty [''id'' \<mapsto> ''1''],
                     NodeData ''data'' ''D2'' Map.empty [''id'' \<mapsto> ''2'']]]
       [''key'' \<mapsto> ''mykey'']"
      and r' = "NodeData ''data'' ''D2'' Map.empty [''id'' \<mapsto> ''2'']"]
  by (simp add: example_defs xml_def empty_data_def)

section \<open>Malformed input\<close>

text \<open>
  Claim C3, as stated: when the document text is not well-formed, \<open>parse\<close> fails with
  a malformed-input error and with no other error. It does not hold. The program has
  no such error and drops the status of the loader (line 245). On the text \<^verbatim>\<open><\<close>,
  for which the loader reports a failure and leaves an empty document, \<open>parse\<close> under
  the demonstration schema fails with the missing-node error of line 154, and under
  a schema whose root is not required it succeeds.
\<close>

theorem malformed_input_counterexample:
  "fst (example_loader ''<'') = False \<and>
   parse example_loader ''<'' xml = Inl (MissingRequiredNode ''root'') \<and>
   parse example_loader ''<'' (Node ''root'' [Attribute ''client_id'' []]) =
     Inr (NodeData ''root'' [] Map.empty Map.empty)"
  by (simp add: example_defs xml_def empty_data_def)

text \<open>
  Claim C3, amended. \<open>parse\<close> depends on the tree the loader leaves and not on its
  status: two loads that leave the same tree give the same result. When the tree has
  no document element, \<open>parse\<close> fails with \<open>MissingRequiredNode\<close> of the root name if
  the root is declared required, and otherwise goes on to parse the null handle.
\<close>

theorem load_status_ignored:
  "(snd (load1 s1) = snd (load2 s2) \<longrightarrow>
      parse load1 s1 (Node nm args) = parse load2 s2 (Node nm args)) \<and>
   (document_element (snd (load_buffer s)) = None \<and> is_required args \<longrightarrow>
      parse load_buffer s (Node nm args) = Inl (MissingRequiredNode nm)) \<and>
   (document_element (snd (load_buffer s)) = None \<and> \<not> is_required args \<longrightarrow>
      parse load_buffer s (Node nm args) = Node_parse nm args empty_data None)"
  by (intro conjI impI) (simp_all del: Node_parse.simps split: sum.splits)

theorem load_status_ignored_witness:
  "snd (example_loader ''<'') = snd (example_loader ''<<'') \<and>
   parse example_loader ''<'' xml = parse example_loader ''<<'' xml \<and>
   document_element (snd (example_loader ''<'')) = None \<and>
   is_required [Required, Attribute ''key'' [Required]] \<and>
   parse example_loader ''<'' (Node ''root'' [Required, Attribute ''key'' [Required]])
     = Inl (MissingRequiredNode ''root'') \<and>
   \<not> is_required [Attribute ''client_id'' []] \<and>
   parse example_loader ''<'' (Node ''root'' [Attribute ''client_id'' []]) =
     Inr (NodeData ''root'' [] Map.empty Map.empty)"
  using
    load_status_ignored[of example_loader "''<''" example_loader "''<<''" "''root''"
      "[Required, Attribute ''key'' [Required]]" example_loader "''<''"]
    load_status_ignored[of example_loader "''<''" example_loader "''<<''" "''root''"
      "[Attribute ''client_id'' []]" example_loader "''<''"]
  by (simp add: example_defs xml_def empty_data_def)

section \<open>A required attribute is enforced\<close>

text \<open>
  Claim C4. Take a document that parses under a schema, and remove an attribute from
  an element to which the schema applies an \<^verbatim>\<open>Attribute\<close> descriptor of that name
  declared required: \<open>parse\<close> of the new document fails with \<open>MissingRequiredAttribute\<close>
  of that name. Under the demonstration schema, whose root requires \<^verbatim>\<open>key\<close>, the
  document \<^verbatim>\<open><root/>\<close> fails with \<open>MissingRequiredAttribute ''key''\<close>.
\<close>

theorem required_attribute_enforced:
  "(parse load_buffer s (Node nm args) = Inr r \<and>
    document_element (snd (load_buffer s)) = Some e \<and>
    document_element (snd (load_buffer s')) = Some e' \<and>
    required_attribute_removed a args e e' \<longrightarrow>
      parse load_buffer s' (Node nm args) = Inl (MissingRequiredAttribute a)) \<and>
   (snd (load_buffer input_no_key) = doc_no_key \<longrightarrow>
      parse load_buffer input_no_key xml = Inl (MissingRequiredAttribute ''key''))"
proof (intro conjI impI)
  assume h: "parse load_buffer s (Node nm args) = Inr r \<and>
    document_element (snd (load_buffer s)) = Some e \<and>
    document_element (snd (load_buffer s')) = Some e' \<and>
    required_attribute_removed a args e e'"
  then have t: "tag e = nm" and p: "parse_subnodes (set_name empty_data nm) (Some e) args = Inr r"
    by (auto split: if_splits)
  have "tag e' = tag e"
    using h by (auto dest: required_removed_is_removed removed_tag)
  moreover have "parse_subnodes (set_name empty_data nm) (Some e') args
      = Inl (MissingRequiredAttribute a)"
    using h p by (auto intro: parse_required_attribute_removed)
  ultimately show "parse load_buffer s' (Node nm args) = Inl (MissingRequiredAttribute a)"
    using h t by simp
next
  assume "snd (load_buffer input_no_key) = doc_no_key"
  then show "parse load_buffer input_no_key xml = Inl (MissingRequiredAttribute ''key'')"
    by (simp add: xml_def doc_no_key_def empty_data_def)
qed

theorem required_attribute_enforced_witness:
  "parse example_loader input_key_only xml =
     Inr (NodeData ''root'' [] [''data'' \<mapsto> []] [''key'' \<mapsto> ''mykey'']) \<and>
   document_element (snd (example_loader input_key_only)) =
     Some (Element ''root'' [(''key'', ''mykey'')] []) \<and>
   document_element (snd (example_loader input_no_key)) = Some (Element ''root'' [] []) \<and>
   required_attribute_removed ''key''
     [Required, Attribute ''key'' [Required], Attribute ''client_id'' [],
      NodeList ''data'' [Attribute ''id'' [Required], Text [Required]]]
     (Element ''root'' [(''key'', ''mykey'')] []) (Element ''root'' [] []) \<and>
   snd (example_loader input_no_key) = doc_no_key \<and>
   parse example_loader input_no_key xml = Inl (MissingRequiredAttribute ''key'')"
proof -
  have r: "required_attribute_removed ''key''
     [Required, Attribute ''key'' [Required], Attribute ''client_id'' [],
      NodeList ''data'' [Attribute ''id'' [Required], Text [Required]]]
     (Element ''root'' [(''key'', ''mykey'')] []) (Element ''root'' [] [])"
    using required_attribute_removed.at_node[of "''key''" "[Required]"
        "[Required, Attribute ''key'' [Required], Attribute ''client_id'' [],
          NodeList ''data'' [Attribute ''id'' [Required], Text [Required]]]"
        "Element ''root'' [(''key'', ''mykey'')] []"]
    by simp
  show ?thesis
    using r required_attribute_enforced[where load_buffer = example_loader
        and s = input_key_only and s' = input_no_key and nm = "''root''" and a = "''key''"
        and args = "[Required, Attribute ''key'' [Required], Attribute ''client_id'' [],
          NodeList ''data'' [Attribute ''id'' [Required], Text [Required]]]"
        and e = "Element ''root'' [(''key'', ''mykey'')] []" and e' = "Element ''root'' [] []"
        and r = "NodeData ''root'' [] [''data'' \<mapsto> []] [''key'' \<mapsto> ''mykey'']"]
    by (simp add: example_defs xml_def empty_data_def)
qed

text \<open>
  The same below a list: without the \<^verbatim>\<open>id\<close> of its second \<^verbatim>\<open>data\<close> child, the
  two-children document fails with the missing \<^verbatim>\<open>id\<close>.
\<close>

lemma required_attribute_removed_in_list_example:
  "required_attribute_removed ''id''
     [Required, Attribute ''key'' [Required], Attribute ''client_id'' [],
      NodeList ''data'' [Attribute ''id'' [Required], Text [Required]]]
     (Element ''root'' [(''key'', ''mykey'')]
        [Child (Element ''data'' [(''id'', ''1'')] [PCData ''D1'']),
         Child (Element ''data'' [(''id'', ''2'')] [PCData ''D2''])])
     (Element ''root'' [(''key'', ''mykey'')]
        [Child (Element ''data'' [(''id'', ''1'')] [PCData ''D1'']),
         Child (Element ''data'' [] [PCData ''D2''])]) \<and>
   Node_parse ''root''
     [Required, Attribute ''key'' [Required], Attribute ''client_id'' [],
      NodeList ''data'' [Attribute ''id'' [Required], Text [Required]]] empty_data
     (Some (Element ''root'' [(''key'', ''mykey'')]
        [Child (Element ''data'' [(''id'', ''1'')] [PCData ''D1'']),
         Child (Element ''data'' [] [PCData ''D2''])]))
     = Inl (MissingRequiredAttribute ''id'')"
proof -
  have i: "required_attribute_removed ''id'' [Attribute ''id'' [Required], Text [Required]]
      (Element ''data'' [(''id'', ''2'')] [PCData ''D2'']) (Element ''data'' [] [PCData ''D2''])"
    using required_attribute_removed.at_node[of "''id''" "[Required]"
        "[Attribute ''id'' [Required], Text [Required]]"
        "Element ''data'' [(''id'', ''2'')] [PCData ''D2'']"]
    by simp
  have "required_attribute_removed ''id''
     [Required, Attribute ''key'' [Required], Attribute ''client_id'' [],
      NodeList ''data'' [Attribute ''id'' [Required], Text [Required]]]
     (Element ''root'' [(''key'', ''mykey'')]
        ([Child (Element ''data'' [(''id'', ''1'')] [PCData ''D1''])] @
         Child (Element ''data'' [(''id'', ''2'')] [PCData ''D2'']) # []))
     (Element ''root'' [(''key'', ''mykey'')]
        ([Child (Element ''data'' [(''id'', ''1'')] [PCData ''D1''])] @
         Child (Element ''data'' [] [PCData ''D2'']) # []))"
    by (rule required_attribute_removed.in_list[OF _ _ i]) simp_all
  then show ?thesis by (simp add: empty_data_def)
qed

section \<open>Failures inside a list\<close>

text \<open>
  Claim C5. \<^verbatim>\<open>NodeList::validate\<close> returns true only if every element of the sequence
  passes the \<^verbatim>\<open>validate\<close> of the inner node; the error of the first element that
  fails is the error of the whole validation, and likewise the error of the first
  child whose parse fails is the error of the parse loop and of the enclosing
  \<^verbatim>\<open>parse_subnodes\<close>, so no part of the list is accepted. Under the demonstration
  schema the document whose \<^verbatim>\<open>data\<close> child has no text fails with \<open>MissingRequiredText\<close>.
\<close>

theorem list_inner_failure_propagates:
  "(NodeList_validate nm args cs = Inr True \<longrightarrow>
      (\<forall>c \<in> set cs. Node_validate nm args (Some c) = Inr True)) \<and>
   ((\<forall>c \<in> set pre. Node_validate nm args (Some c) = Inr True) \<and>
    Node_validate nm args (Some c) = Inl err \<longrightarrow>
      NodeList_validate nm args (pre @ c # post) = Inl err) \<and>
   ((\<forall>c \<in> set pre. \<exists>sub. Node_parse nm args empty_data (Some c) = Inr sub) \<and>
    Node_parse nm args empty_data (Some c) = Inl err \<longrightarrow>
      NodeList_loop nm args acc (pre @ c # post) = Inl err) \<and>
   (NodeList_loop nm args (subnodes_at d nm) (NodeList_subnode nm node) = Inl err \<longrightarrow>
      parse_subnodes d node (NodeList nm args # descs) = Inl err) \<and>
   (snd (load_buffer input_data_no_text) = doc_data_no_text \<longrightarrow>
      parse load_buffer input_data_no_text xml = Inl MissingRequiredText)"
proof (intro conjI impI)
  assume "NodeList_validate nm args cs = Inr True"
  then show "\<forall>c \<in> set cs. Node_validate nm args (Some c) = Inr True"
    by (simp add: NodeList_validate_True_iff)
next
  assume "(\<forall>c \<in> set pre. Node_validate nm args (Some c) = Inr True) \<and>
    Node_validate nm args (Some c) = Inl err"
  then show "NodeList_validate nm args (pre @ c # post) = Inl err"
    by (simp add: NodeList_validate_first_failure)
next
  assume "(\<forall>c \<in> set pre. \<exists>sub. Node_parse nm args empty_data (Some c) = Inr sub) \<and>
    Node_parse nm args empty_data (Some c) = Inl err"
  then show "NodeList_loop nm args acc (pre @ c # post) = Inl err"
    using NodeList_loop_first_failure by blast
next
  assume "NodeList_loop nm args (subnodes_at d nm) (NodeList_subnode nm node) = Inl err"
  then show "parse_subnodes d node (NodeList nm args # descs) = Inl err"
    by (simp add: NodeList_subnode_def)
next
  assume "snd (load_buffer input_data_no_text) = doc_data_no_text"
  then show "parse load_buffer input_data_no_text xml = Inl MissingRequiredText"
    by (simp add: xml_def doc_data_no_text_def empty_data_def)
qed

theorem list_inner_failure_propagates_witness:
  "NodeList_validate ''data'' [Attribute ''id'' [Required], Text [Required]]
     [Element ''data'' [(''id'', ''1'')] [PCData ''D1''], Element ''data'' [(''id'', ''2'')] []] = Inr True \<and>
   Node_validate ''data'' [] (Some (Element ''data'' [] [])) = Inr True \<and>
   Node_validate ''data'' [] (Some (Element ''item'' [] [])) = Inl (NodeNameMismatch ''data'' ''item'') \<and>
   NodeList_validate ''data'' [] [Element ''data'' [] [], Element ''item'' [] [], Element ''data'' [] []]
     = Inl (NodeNameMismatch ''data'' ''item'') \<and>
   Node_parse ''data'' [Attribute ''id'' [Required], Text [Required]] empty_data
     (Some (Element ''data'' [(''id'', ''1'')] [PCData ''D1''])) =
       Inr (NodeData ''data'' ''D1'' Map.empty [''id'' \<mapsto> ''1'']) \<and>
   Node_parse ''data'' [Attribute ''id'' [Required], Text [Required]] empty_data
     (Some (Element ''data'' [(''id'', ''2'')] [])) = Inl MissingRequiredText \<and>
   NodeList_loop ''data'' [Attribute ''id'' [Required], Text [Required]] []
     [Element ''data'' [(''id'', ''1'')] [PCData ''D1''], Element ''data'' [(''id'', ''2'')] []]
     = Inl MissingRequiredText \<and>
   NodeList_loop ''data'' [Attribute ''id'' [Required], Text [Required]] (subnodes_at empty_data ''data'')
     (NodeList_subnode ''data''
        (Some (Element ''root'' [] [Child (Element ''data'' [(''id'', ''2'')] [])])))
     = Inl MissingRequiredText \<and>
   parse_subnodes empty_data
     (Some (Element ''root'' [] [Child (Element ''data'' [(''id'', ''2'')] [])]))
     [NodeList ''data'' [Attribute ''id'' [Required], Text [Required]]]
     = Inl MissingRequiredText \<and>
   snd (example_loader input_data_no_text) = doc_data_no_text \<and>
   parse example_loader input_data_no_text xml = Inl MissingRequiredText"
  using
    list_inner_failure_propagates[where nm = "''data''"
      and args = "[Attribute ''id'' [Required], Text [Required]]"
      and cs = "[Element ''data'' [(''id'', ''1'')] [PCData ''D1''], Element ''data'' [(''id'', ''2'')] []]"
      and pre = "[Element ''data'' [(''id'', ''1'')] [PCData ''D1'']]"
      and c = "Element ''data'' [(''id'', ''2'')] []" and err = MissingRequiredText
      and post = "[]" and acc = "[]" and d = empty_data and descs = "[]"
      and node = "Some (Element ''root'' [] [Child (Element ''data'' [(''id'', ''2'')] [])])"
      and load_buffer = example_loader]
    list_inner_failure_propagates[where nm = "''data''" and args = "[]"
      and cs = "[Element ''data'' [] []]" and pre = "[Element ''data'' [] []]"
      and c = "Element ''item'' [] []" and err = "NodeNameMismatch ''data'' ''item''"
      and post = "[Element ''data'' [] []]" and acc = "[]" and d = empty_data and descs = "[]"
      and node = "None" and load_buffer = example_loader]
  by (simp add: example_defs xml_def empty_data_def NodeList_subnode_def)

section \<open>Mismatch of the root name\<close>

text \<open>
  Claim C6. \<open>parse\<close> validates the root descriptor against the document element
  itself; when the tag of that element differs from the declared name, \<open>parse\<close> fails
  with \<open>NodeNameMismatch\<close> of the declared and the actual name, whatever else the
  schema says. Inside \<open>parse\<close> this is the only validation that can see a wrong tag:
  a nested \<^verbatim>\<open>Node\<close> or a \<^verbatim>\<open>NodeList\<close> validates what was located by its own name, which
  never gives a mismatch. Under the demonstration schema the document \<^verbatim>\<open><wrong/>\<close>
  fails with \<open>NodeNameMismatch ''root'' ''wrong''\<close>.
\<close>

theorem root_name_mismatch:
  "(document_element (snd (load_buffer s)) = Some e \<and> tag e \<noteq> nm \<longrightarrow>
      parse load_buffer s (Node nm args) = Inl (NodeNameMismatch nm (tag e))) \<and>
   (\<forall>expected actual.
      Node_validate k kargs (Node_subnode k node) \<noteq> Inl (NodeNameMismatch expected actual)) \<and>
   NodeList_validate k kargs (NodeList_subnode k node) = Inr True \<and>
   (snd (load_buffer input_wrong) = doc_wrong \<longrightarrow>
      parse load_buffer input_wrong xml = Inl (NodeNameMismatch ''root'' ''wrong''))"
proof (intro conjI allI impI)
  assume "document_element (snd (load_buffer s)) = Some e \<and> tag e \<noteq> nm"
  then show "parse load_buffer s (Node nm args) = Inl (NodeNameMismatch nm (tag e))"
    by auto
next
  fix expected actual
  show "Node_validate k kargs (Node_subnode k node) \<noteq> Inl (NodeNameMismatch expected actual)"
    by (cases "child node k") (auto simp: Node_subnode_def dest: child_tag)
next
  show "NodeList_validate k kargs (NodeList_subnode k node) = Inr True"
    by (simp add: NodeList_subnode_def)
next
  assume "snd (load_buffer input_wrong) = doc_wrong"
  then show "parse load_buffer input_wrong xml = Inl (NodeNameMismatch ''root'' ''wrong'')"
    by (simp add: xml_def doc_wrong_def)
qed

theorem root_name_mismatch_witness:
  "document_element (snd (example_loader input_wrong)) = Some (Element ''wrong'' [] []) \<and>
   tag (Element ''wrong'' [] []) \<noteq> ''root'' \<and>
   snd (example_loader input_wrong) = doc_wrong \<and>
   parse example_loader input_wrong xml = Inl (NodeNameMismatch ''root'' ''wrong'')"
  using root_name_mismatch[where load_buffer = example_loader and s = input_wrong
      and e = "Element ''wrong'' [] []" and nm = "''root''"
      and args = "[Required, Attribute ''key'' [Required], Attribute ''client_id'' [],
        NodeList ''data'' [Attribute ''id'' [Required], Text [Required]]]"]
  by (simp add: example_defs xml_def)

section \<open>Text is always written, absent attributes are not\<close>

text \<open>
  Claim C8, as stated: for every record, \<^verbatim>\<open>Text::serialize\<close> sets the text of the output
  node to the text of the record. It does not hold for every record: line 135 hands
  \<^verbatim>\<open>data.text.c_str()\<close> to the library, which reads it up to the first NUL. For a record
  whose text is \<^verbatim>\<open>ab\<close>, a NUL character and \<^verbatim>\<open>cd\<close>, the text of the node is \<^verbatim>\<open>ab\<close>.
\<close>

theorem text_nul_counterexample:
  "text_of (NodeData ''data'' (''ab'' @ CHR 0x00 # ''cd'') Map.empty Map.empty) =
     ''ab'' @ CHR 0x00 # ''cd'' \<and>
   xml_text (Some (Text_serialize (Element ''data'' [] [])
     (NodeData ''data'' (''ab'' @ CHR 0x00 # ''cd'') Map.empty Map.empty))) = Some ''ab'' \<and>
   ''ab'' \<noteq> ''ab'' @ CHR 0x00 # ''cd''"
  by (simp add: Text_serialize_def)

text \<open>
  Claim C8, amended. For every record, \<^verbatim>\<open>Text::serialize\<close> sets the text of the output
  node with no test to the text of the record read as a C string: the text up to
  its first NUL character, which is all of it when it holds none. Afterwards the
  node has character data; for a record whose text was never set it is the empty
  string. \<^verbatim>\<open>Attribute::serialize\<close> leaves the output node as it is when the record has
  no entry of the declared name, and otherwise appends the value, read as a C string.
\<close>

theorem text_attribute_asymmetry:
  "xml_text (Some (Text_serialize parent d)) = Some (c_str (text_of d)) \<and>
   (CHR 0x00 \<notin> set (text_of d) \<longrightarrow>
      xml_text (Some (Text_serialize parent d)) = Some (text_of d)) \<and>
   xml_text (Some (Text_serialize parent empty_data)) = Some [] \<and>
   serialize_subnodes parent d (Text args # descs) =
     serialize_subnodes (set_text parent (c_str (text_of d))) d descs \<and>
   (attributes d nm = None \<longrightarrow>
      Attribute_serialize nm parent d = parent \<and>
      serialize_subnodes parent d (Attribute nm args # descs) =
        serialize_subnodes parent d descs) \<and>
   (attributes d nm = Some v \<longrightarrow>
      Attribute_serialize nm parent d = append_attribute parent nm (c_str v))"
  by (cases parent)
    (simp add: Text_serialize_def Attribute_serialize_def empty_data_def c_str_no_nul)

theorem text_attribute_asymmetry_witness:
  "attributes empty_data ''client_id'' = None \<and>
   Attribute_serialize ''client_id'' (Element ''root'' [] []) empty_data = Element ''root'' [] [] \<and>
   Text_serialize (Element ''root'' [] []) empty_data = Element ''root'' [] [PCData []] \<and>
   serialize_subnodes (Element ''root'' [] []) empty_data [Attribute ''client_id'' [], Text []] =
     Inr (Element ''root'' [] [PCData []]) \<and>
   CHR 0x00 \<notin> set (text_of (NodeData ''data'' ''D1'' Map.empty [''id'' \<mapsto> ''1''])) \<and>
   xml_text (Some (Text_serialize (Element ''data'' [] [])
     (NodeData ''data'' ''D1'' Map.empty [''id'' \<mapsto> ''1'']))) = Some ''D1'' \<and>
   attributes (NodeData ''data'' ''D1'' Map.empty [''id'' \<mapsto> ''1'']) ''id'' = Some ''1'' \<and>
   Attribute_serialize ''id'' (Element ''data'' [] [])
     (NodeData ''data'' ''D1'' Map.empty [''id'' \<mapsto> ''1'']) = Element ''data'' [(''id'', ''1'')] []"
  using
    text_attribute_asymmetry[where parent = "Element ''root'' [] []" and d = empty_data
      and args = "[]" and descs = "[Text []]" and nm = "''client_id''" and v = "[]"]
    text_attribute_asymmetry[where parent = "Element ''data'' [] []"
      and d = "NodeData ''data'' ''D1'' Map.empty [''id'' \<mapsto> ''1'']"
      and args = "[]" and descs = "[]" and nm = "''id''" and v = "''1''"]
  by (simp add: empty_data_def Text_serialize_def Attribute_serialize_def)

section \<open>Absent optional fields\<close>

text \<open>
  Claim C9. Under the demonstration schema the document \<^verbatim>\<open><root key="mykey"/>\<close> parses:
  the record has \<^verbatim>\<open>key\<close> equal to \<^verbatim>\<open>mykey\<close>, no \<^verbatim>\<open>client_id\<close>, and an empty sequence
  under \<^verbatim>\<open>data\<close>. For a descriptor that is not declared required, \<^verbatim>\<open>validate\<close> on an
  absent attribute, text or node returns false without an error, and \<^verbatim>\<open>parse_subnodes\<close>
  skips the descriptor.
\<close>

theorem optional_absence:
  "(snd (load_buffer input_key_only) = doc_key_only \<longrightarrow>
      (\<exists>r. parse load_buffer input_key_only xml = Inr r \<and>
           attributes r ''key'' = Some ''mykey'' \<and>
           attributes r ''client_id'' = None \<and>
           subnodes r ''data'' = Some [])) \<and>
   (\<not> is_required args \<longrightarrow>
      Attribute_validate nm args None = Inr False \<and>
      Text_validate args None = Inr False \<and>
      Node_validate nm args None = Inr False) \<and>
   (\<not> is_required args \<and> Attribute_subnode nm node = None \<longrightarrow>
      parse_subnodes d node (Attribute nm args # descs) = parse_subnodes d node descs) \<and>
   (\<not> is_required args \<and> Text_subnode node = None \<longrightarrow>
      parse_subnodes d node (Text args # descs) = parse_subnodes d node descs) \<and>
   (\<not> is_required args \<and> Node_subnode nm node = None \<longrightarrow>
      parse_subnodes d node (Node nm args # descs) = parse_subnodes d node descs)"
  by (simp add: xml_def doc_key_only_def empty_data_def Attribute_subnode_def
      Text_subnode_def Node_subnode_def)

theorem optional_absence_witness:
  "snd (example_loader input_key_only) = doc_key_only \<and>
   parse example_loader input_key_only xml =
     Inr (NodeData ''root'' [] [''data'' \<mapsto> []] [''key'' \<mapsto> ''mykey'']) \<and>
   \<not> is_required [] \<and>
   Attribute_subnode ''client_id'' (Some (Element ''root'' [(''key'', ''mykey'')] [])) = None \<and>
   Text_subnode (Some (Element ''root'' [(''key'', ''mykey'')] [])) = None \<and>
   Node_subnode ''data'' (Some (Element ''root'' [(''key'', ''mykey'')] [])) = None \<and>
   Attribute_validate ''client_id'' [] None = Inr False \<and>
   parse_subnodes empty_data (Some (Element ''root'' [(''key'', ''mykey'')] []))
     [Attribute ''client_id'' []] = Inr empty_data"
  using optional_absence[of example_loader "[]" "''client_id''"
      "Some (Element ''root'' [(''key'', ''mykey'')] [])" empty_data "[]"]
  by (simp add: example_defs xml_def empty_data_def Attribute_subnode_def
      Text_subnode_def Node_subnode_def child_def)

section \<open>Round trip\<close>

text \<open>
  Claim C1, as stated: for every schema and every record \<open>r\<close> that a successful
  \<open>parse\<close> returns, \<open>parse\<close> of \<open>serialize\<close> of \<open>r\<close> succeeds and returns \<open>r\<close>. It does not
  hold for every schema. With a \<^verbatim>\<open>header\<close> node nested directly in the root, the
  parsed record is named \<^verbatim>\<open>header\<close> (line 168 writes into the record of the root), and
  \<open>serialize\<close> of it fails on the name of the root. With the list of \<^verbatim>\<open>data\<close> declared
  twice, one child gives two records, \<open>serialize\<close> emits four children, and these
  parse to eight records.
\<close>

theorem round_trip_counterexample:
  "parse example_loader input_header (Node ''root'' [Node ''header'' []]) =
     Inr (NodeData ''header'' [] Map.empty Map.empty) \<and>
   serialize example_printer (NodeData ''header'' [] Map.empty Map.empty)
     (Node ''root'' [Node ''header'' []]) = Inl (NodeNameMismatch ''root'' ''header'') \<and>
   parse example_loader input_one_data (Node ''root'' [NodeList ''data'' [], NodeList ''data'' []]) =
     Inr (NodeData ''root'' []
       [''data'' \<mapsto> [NodeData ''data'' [] Map.empty Map.empty,
                     NodeData ''data'' [] Map.empty Map.empty]] Map.empty) \<and>
   serialize example_printer
     (NodeData ''root'' []
       [''data'' \<mapsto> [NodeData ''data'' [] Map.empty Map.empty,
                     NodeData ''data'' [] Map.empty Map.empty]] Map.empty)
     (Node ''root'' [NodeList ''data'' [], NodeList ''data'' []]) = Inr input_four_data \<and>
   parse example_loader input_four_data (Node ''root'' [NodeList ''data'' [], NodeList ''data'' []]) =
     Inr (NodeData ''root'' []
       [''data'' \<mapsto> [NodeData ''data'' [] Map.empty Map.empty,
                     NodeData ''data'' [] Map.empty Map.empty,
                     NodeData ''data'' [] Map.empty Map.empty,
                     NodeData ''data'' [] Map.empty Map.empty,
                     NodeData ''data'' [] Map.empty Map.empty,
                     NodeData ''data'' [] Map.empty Map.empty,
                     NodeData ''data'' [] Map.empty Map.empty,
                     NodeData ''data'' [] Map.empty Map.empty]] Map.empty)"
  by (simp add: example_defs empty_data_def child_def)

text \<open>
  Claim C1, amended. For every schema in which no \<^verbatim>\<open>Node\<close> descriptor is nested directly
  in the arguments of a node and no node declares two lists of the same inner name,
  and every record \<open>r\<close> that a successful \<open>parse\<close> returns, its strings being C strings
  as everything is that \<open>parse\<close> reads: \<open>serialize\<close> of \<open>r\<close> succeeds, and \<open>parse\<close> of the
  printed text returns \<open>r\<close> itself, provided the loader reads the printed text back as
  the tree that was printed. (By \<open>parse_gives_c_record\<close> the record holds C strings
  whenever the descriptor names and the strings of the document do.)
\<close>

theorem round_trip_simple:
  "simple_args args \<and> parse load_buffer s (Node nm args) = Inr r \<and> c_record r \<longrightarrow>
     (\<exists>doc. serialize_doc r (Node nm args) = Inr doc \<and>
        serialize print r (Node nm args) = Inr (print doc) \<and>
        (snd (load_buffer (print doc)) = doc \<longrightarrow>
           parse load_buffer (print doc) (Node nm args) = Inr r))"
proof
  assume h: "simple_args args \<and> parse load_buffer s (Node nm args) = Inr r \<and> c_record r"
  let ?node = "document_element (snd (load_buffer s))"
  from h have p: "parse_subnodes (set_name empty_data nm) ?node args = Inr r"
    using parse_Node_Inr by blast
  from h have simple: "simple_args args" and cr: "c_record r" by simp_all
  from simple_round_trips[OF simple] p cr obtain t where
    b: "built args r t" and
    q: "parse_subnodes (set_name empty_data nm) (Some t) args = Inr r"
    unfolding round_trips_def by blast
  have "name r = nm" using parse_simple_name[OF simple p] by simp
  moreover have "c_str (name r) = name r"
    using cr by (subst (asm) c_record_iff) (simp add: c_strings_def)
  ultimately have tg: "tag t = nm" using built_tag[OF b] by simp
  have sd: "serialize_doc r (Node nm args) = Inr [Child t]" using b tg by simp
  then have sp: "serialize print r (Node nm args) = Inr (print [Child t])" by simp
  have "parse load_buffer (print [Child t]) (Node nm args) = Inr r"
    if "snd (load_buffer (print [Child t])) = [Child t]"
    using that q tg by simp
  with sd sp show "\<exists>doc. serialize_doc r (Node nm args) = Inr doc \<and>
        serialize print r (Node nm args) = Inr (print doc) \<and>
        (snd (load_buffer (print doc)) = doc \<longrightarrow>
           parse load_buffer (print doc) (Node nm args) = Inr r)"
    by blast
qed

theorem round_trip_simple_witness:
  "simple_args [Required, Attribute ''key'' [Required], Attribute ''client_id'' [],
      NodeList ''data'' [Attribute ''id'' [Required], Text [Required]]] \<and>
   parse example_loader input_two_data xml =
     Inr (NodeData ''root'' []
       [''data'' \<mapsto> [NodeData ''data'' ''D1'' Map.empty [''id'' \<mapsto> ''1''],
                     NodeData ''data'' ''D2'' Map.empty [''id'' \<mapsto> ''2'']]]
       [''key'' \<mapsto> ''mykey'']) \<and>
   c_record (NodeData ''root'' []
       [''data'' \<mapsto> [NodeData ''data'' ''D1'' Map.empty [''id'' \<mapsto> ''1''],
                     NodeData ''data'' ''D2'' Map.empty [''id'' \<mapsto> ''2'']]]
       [''key'' \<mapsto> ''mykey'']) \<and>
   serialize example_printer
     (NodeData ''root'' []
       [''data'' \<mapsto> [NodeData ''data'' ''D1'' Map.empty [''id'' \<mapsto> ''1''],
                     NodeData ''data'' ''D2'' Map.empty [''id'' \<mapsto> ''2'']]]
       [''key'' \<mapsto> ''mykey'']) xml = Inr input_two_data \<and>
   snd (example_loader (example_printer doc_two_data)) = doc_two_data \<and>
   parse example_loader (example_printer doc_two_data) xml =
     Inr (NodeData ''root'' []
       [''data'' \<mapsto> [NodeData ''data'' ''D1'' Map.empty [''id'' \<mapsto> ''1''],
                     NodeData ''data'' ''D2'' Map.empty [''id'' \<mapsto> ''2'']]]
       [''key'' \<mapsto> ''mykey''])"
  using c_record_two_data
    round_trip_simple[where load_buffer = example_loader and print = example_printer
      and s = input_two_data and nm = "''root''"
      and args = "[Required, Attribute ''key'' [Required], Attribute ''client_id'' [],
        NodeList ''data'' [Attribute ''id'' [Required], Text [Required]]]"
      and r = "NodeData ''root'' []
       [''data'' \<mapsto> [NodeData ''data'' ''D1'' Map.empty [''id'' \<mapsto> ''1''],
                     NodeData ''data'' ''D2'' Map.empty [''id'' \<mapsto> ''2'']]]
       [''key'' \<mapsto> ''mykey'']"]
  by (simp add: example_defs xml_def empty_data_def Attribute_serialize_def Text_serialize_def)

section \<open>Order and number of the list children\<close>

text \<open>
  Claim C7, as stated: for N children of one name under a list descriptor, a
  successful \<open>parse\<close> stores exactly N records under that name. It does not hold for
  every schema: when the list of \<^verbatim>\<open>data\<close> is declared twice, the one \<^verbatim>\<open>data\<close> child of
  the document is stored twice.
\<close>

theorem list_order_counterexample:
  "children (document_element (snd (example_loader input_one_data))) ''data'' =
     [Element ''data'' [] []] \<and>
   parse example_loader input_one_data (Node ''root'' [NodeList ''data'' [], NodeList ''data'' []]) =
     Inr (NodeData ''root'' []
       [''data'' \<mapsto> [NodeData ''data'' [] Map.empty Map.empty,
                     NodeData ''data'' [] Map.empty Map.empty]] Map.empty)"
  by (simp add: example_defs empty_data_def)

text \<open>
  Claim C7, amended. For every schema in which no \<^verbatim>\<open>Node\<close> descriptor is nested directly
  in the arguments of a node and no node declares two lists of the same inner name:
  after a successful \<open>parse\<close>, the record holds under the inner name of a list
  descriptor of the root exactly one record for each child of that name, in document
  order, each being the parse of that child; \<open>serialize\<close> of the record, its strings
  being C strings as everything is that \<open>parse\<close> reads, then succeeds, and the root it
  prints has as many children of that name, in the same order, each built from the
  record at its position. Under the demonstration schema the two-children document
  gives two records, with the texts \<^verbatim>\<open>D1\<close> and \<^verbatim>\<open>D2\<close> in this order.
\<close>

theorem list_order_and_count:
  "(simple_args args \<and> NodeList k iargs \<in> set args \<and>
    parse load_buffer s (Node nm args) = Inr r \<longrightarrow>
      (\<exists>subs.
         subnodes r k = Some subs \<and>
         length subs = length (children (document_element (snd (load_buffer s))) k) \<and>
         list_all2 (\<lambda>c sub. Node_parse k iargs empty_data (Some c) = Inr sub)
           (children (document_element (snd (load_buffer s))) k) subs \<and>
         (c_record r \<longrightarrow>
            (\<exists>root.
               serialize_doc r (Node nm args) = Inr [Child root] \<and>
               serialize print r (Node nm args) = Inr (print [Child root]) \<and>
               length (children (Some root) k) = length subs \<and>
               list_all2
                 (\<lambda>sub c. serialize_subnodes (Element (c_str (name sub)) [] []) sub iargs = Inr c)
                 subs (children (Some root) k))))) \<and>
   (snd (load_buffer input_two_data) = doc_two_data \<longrightarrow>
      parse load_buffer input_two_data xml =
        Inr (NodeData ''root'' []
       [''data'' \<mapsto> [NodeData ''data'' ''D1'' Map.empty [''id'' \<mapsto> ''1''],
                     NodeData ''data'' ''D2'' Map.empty [''id'' \<mapsto> ''2'']]]
       [''key'' \<mapsto> ''mykey'']))"
proof (intro conjI impI)
  assume h: "simple_args args \<and> NodeList k iargs \<in> set args \<and>
    parse load_buffer s (Node nm args) = Inr r"
  let ?node = "document_element (snd (load_buffer s))"
  from h have p: "parse_subnodes (set_name empty_data nm) ?node args = Inr r"
    using parse_Node_Inr by blast
  from h have simple: "simple_args args" and m: "NodeList k iargs \<in> set args" by simp_all
  from simple_list_parsed[OF simple m p] obtain subs where
    f: "subnodes r k = Some subs"
      "length subs = length (children ?node k)"
      "list_all2 (\<lambda>c sub. Node_parse k iargs empty_data (Some c) = Inr sub) (children ?node k) subs"
    by blast
  have g: "\<exists>root.
         serialize_doc r (Node nm args) = Inr [Child root] \<and>
         serialize print r (Node nm args) = Inr (print [Child root]) \<and>
         length (children (Some root) k) = length subs \<and>
         list_all2
           (\<lambda>sub c. serialize_subnodes (Element (c_str (name sub)) [] []) sub iargs = Inr c)
           subs (children (Some root) k)"
    if cr: "c_record r"
  proof -
    from simple_list_emitted[OF simple m p cr f(1)] obtain root where
      e: "serialize_subnodes (Element (c_str (name r)) [] []) r args = Inr root" "tag root = nm"
        "length (children (Some root) k) = length subs"
        "list_all2
           (\<lambda>sub c. serialize_subnodes (Element (c_str (name sub)) [] []) sub iargs = Inr c)
           subs (children (Some root) k)"
      by blast
    from e(1,2) have sd: "serialize_doc r (Node nm args) = Inr [Child root]" by simp
    then have "serialize print r (Node nm args) = Inr (print [Child root])" by simp
    with sd e(3,4) show ?thesis by blast
  qed
  from f g show "\<exists>subs.
         subnodes r k = Some subs \<and>
         length subs = length (children ?node k) \<and>
         list_all2 (\<lambda>c sub. Node_parse k iargs empty_data (Some c) = Inr sub)
           (children ?node k) subs \<and>
         (c_record r \<longrightarrow>
            (\<exists>root.
               serialize_doc r (Node nm args) = Inr [Child root] \<and>
               serialize print r (Node nm args) = Inr (print [Child root]) \<and>
               length (children (Some root) k) = length subs \<and>
               list_all2
                 (\<lambda>sub c. serialize_subnodes (Element (c_str (name sub)) [] []) sub iargs = Inr c)
                 subs (children (Some root) k)))"
    by blast
next
  assume "snd (load_buffer input_two_data) = doc_two_data"
  then show "parse load_buffer input_two_data xml =
        Inr (NodeData ''root'' []
       [''data'' \<mapsto> [NodeData ''data'' ''D1'' Map.empty [''id'' \<mapsto> ''1''],
                     NodeData ''data'' ''D2'' Map.empty [''id'' \<mapsto> ''2'']]]
       [''key'' \<mapsto> ''mykey''])"
    by (simp add: xml_def doc_two_data_def empty_data_def)
qed

theorem list_order_and_count_witness:
  "simple_args [Required, Attribute ''key'' [Required], Attribute ''client_id'' [],
      NodeList ''data'' [Attribute ''id'' [Required], Text [Required]]] \<and>
   snd (example_loader input_two_data) = doc_two_data \<and>
   children (document_element (snd (example_loader input_two_data))) ''data'' =
     [Element ''data'' [(''id'', ''1'')] [PCData ''D1''],
      Element ''data'' [(''id'', ''2'')] [PCData ''D2'']] \<and>
   parse example_loader input_two_data xml =
     Inr (NodeData ''root'' []
       [''data'' \<mapsto> [NodeData ''data'' ''D1'' Map.empty [''id'' \<mapsto> ''1''],
                     NodeData ''data'' ''D2'' Map.empty [''id'' \<mapsto> ''2'']]]
       [''key'' \<mapsto> ''mykey'']) \<and>
   c_record (NodeData ''root'' []
       [''data'' \<mapsto> [NodeData ''data'' ''D1'' Map.empty [''id'' \<mapsto> ''1''],
                     NodeData ''data'' ''D2'' Map.empty [''id'' \<mapsto> ''2'']]]
       [''key'' \<mapsto> ''mykey'']) \<and>
   serialize_doc
     (NodeData ''root'' []
       [''data'' \<mapsto> [NodeData ''data'' ''D1'' Map.empty [''id'' \<mapsto> ''1''],
                     NodeData ''data'' ''D2'' Map.empty [''id'' \<mapsto> ''2'']]]
       [''key'' \<mapsto> ''mykey'']) xml = Inr doc_two_data"
  using c_record_two_data
    list_order_and_count[where load_buffer = example_loader and print = example_printer
      and s = input_two_data and nm = "''root''" and k = "''data''"
      and iargs = "[Attribute ''id'' [Required], Text [Required]]"
      and args = "[Required, Attribute ''key'' [Required], Attribute ''client_id'' [],
        NodeList ''data'' [Attribute ''id'' [Required], Text [Required]]]"
      and r = "NodeData ''root'' []
       [''data'' \<mapsto> [NodeData ''data'' ''D1'' Map.empty [''id'' \<mapsto> ''1''],
                     NodeData ''data'' ''D2'' Map.empty [''id'' \<mapsto> ''2'']]]
       [''key'' \<mapsto> ''mykey'']"]
  by (simp add: example_defs xml_def empty_data_def Attribute_serialize_def Text_serialize_def)

section \<open>Serializing a record under another name\<close>

text \<open>
  Claim C10, as stated: for a record whose name differs from the declared root name
  \<open>n\<close>, \<open>serialize\<close> fails with \<open>NodeNameMismatch\<close> of \<open>n\<close> and the name of the record.
  It does not hold for every record: the children are serialized before the root is
  validated, and a child record of a list whose own name is wrong fails first, with
  the names of that child. (Nor does it hold when the names differ only behind a NUL
  character, as the example at the end of this section shows.)
\<close>

theorem serialize_root_mismatch_counterexample:
  "name (NodeData ''x'' [] [''data'' \<mapsto> [NodeData ''y'' [] Map.empty Map.empty]] Map.empty) \<noteq> ''root'' \<and>
   serialize example_printer
     (NodeData ''x'' [] [''data'' \<mapsto> [NodeData ''y'' [] Map.empty Map.empty]] Map.empty) xml
     = Inl (NodeNameMismatch ''data'' ''y'')"
  by (simp add: xml_def Attribute_serialize_def Text_serialize_def)

text \<open>
  Claim C10, amended. \<open>serialize\<close> names the root after the name of the record read as
  a C string (line 254), that is up to its first NUL character. For a record whose
  name, read so, differs from the declared root name, \<open>serialize\<close> fails with a
  \<open>NodeNameMismatch\<close> and prints nothing; the error is \<open>NodeNameMismatch\<close> of the declared
  root name and the name so read whenever the declared children serialize without
  error.
\<close>

theorem serialize_root_mismatch:
  "c_str (name d) \<noteq> nm \<Longrightarrow>
     (\<exists>expected actual. serialize print d (Node nm args) = Inl (NodeNameMismatch expected actual)) \<and>
     (\<forall>root. serialize_subnodes (Element (c_str (name d)) [] []) d args = Inr root \<longrightarrow>
        serialize print d (Node nm args) = Inl (NodeNameMismatch nm (c_str (name d))))"
proof (cases "serialize_subnodes (Element (c_str (name d)) [] []) d args")
  case (Inl err)
  then have "is_mismatch err" by (rule serialize_subnodes_error)
  then obtain a b where "err = NodeNameMismatch a b"
    by (cases err) (simp_all add: is_mismatch_def)
  with Inl show ?thesis by simp
next
  case (Inr root)
  assume ne: "c_str (name d) \<noteq> nm"
  from Inr have "tag root = c_str (name d)" by (simp add: serialize_subnodes_tag)
  with Inr ne show ?thesis by simp
qed

theorem serialize_root_mismatch_witness:
  "c_str (name (NodeData ''wrong'' [] Map.empty [''key'' \<mapsto> ''mykey''])) \<noteq> ''root'' \<and>
   serialize_subnodes (Element ''wrong'' [] []) (NodeData ''wrong'' [] Map.empty [''key'' \<mapsto> ''mykey''])
     [Required, Attribute ''key'' [Required], Attribute ''client_id'' [],
      NodeList ''data'' [Attribute ''id'' [Required], Text [Required]]]
     = Inr (Element ''wrong'' [(''key'', ''mykey'')] []) \<and>
   serialize example_printer (NodeData ''wrong'' [] Map.empty [''key'' \<mapsto> ''mykey'']) xml
     = Inl (NodeNameMismatch ''root'' ''wrong'')"
  using serialize_root_mismatch[of "NodeData ''wrong'' [] Map.empty [''key'' \<mapsto> ''mykey'']" "''root''"
      example_printer "[Required, Attribute ''key'' [Required], Attribute ''client_id'' [],
      NodeList ''data'' [Attribute ''id'' [Required], Text [Required]]]"]
  by (simp add: xml_def Attribute_serialize_def Text_serialize_def)

text \<open>
  A record whose name is \<^verbatim>\<open>root\<close>, a NUL character and \<^verbatim>\<open>x\<close> differs from \<^verbatim>\<open>root\<close> as a
  string and not as a C string: its root is named \<^verbatim>\<open>root\<close> and passes the check.
\<close>

lemma serialize_nul_name_example:
  "name (NodeData (''root'' @ CHR 0x00 # ''x'') [] Map.empty [''key'' \<mapsto> ''mykey'']) \<noteq> ''root'' \<and>
   serialize_doc (NodeData (''root'' @ CHR 0x00 # ''x'') [] Map.empty [''key'' \<mapsto> ''mykey'']) xml =
     Inr [Child (Element ''root'' [(''key'', ''mykey'')] [])]"
  by (simp add: xml_def Attribute_serialize_def Text_serialize_def)

end
